theory Spec2Isabelle
  imports Main "HOL-Library.AList" "HOL-Library.Multiset"
begin

section \<open>Domain model (nba\_backend/domain/models.py)\<close>

text \<open>
  Status values are the strings of the source. An instant is one reading of
  \<^verbatim>\<open>utc_now()\<close>, counted in microseconds. \<^verbatim>\<open>created_at\<close> and \<^verbatim>\<open>updated_at\<close>
  of an NbaRecord are only ever written from \<^verbatim>\<open>utc_now()\<close> (the dataclass defaults and
  \<^verbatim>\<open>replace(..., updated_at=utc_now())\<close>), so they are timezone-aware UTC values and
  are held as instants. The \<^verbatim>\<open>action_at\<close> of a log entry can come from the caller, so
  it is a full datetime: a wall-clock reading and an optional UTC offset in minutes
  (\<open>None\<close> is a naive datetime, \<open>Some 0\<close> is \<^verbatim>\<open>timezone.utc\<close>).
\<close>

definition NBA_STATUS_NEW :: string where
  "NBA_STATUS_NEW = ''new''"

definition NBA_STATUS_ACCEPTED :: string where
  "NBA_STATUS_ACCEPTED = ''accepted''"

definition NBA_STATUS_REJECTED :: string where
  "NBA_STATUS_REJECTED = ''rejected''"

definition ACTION_STATUSES :: "string set" where
  "ACTION_STATUSES = {NBA_STATUS_ACCEPTED, NBA_STATUS_REJECTED}"

type_synonym instant = int

record datetime =
  wall :: int
  tzinfo :: "int option"

definition utc_now :: "instant \<Rightarrow> datetime" where
  "utc_now t = \<lparr>wall = t, tzinfo = Some 0\<rparr>"

type_synonym pydict = "(string \<times> string option) list"

text \<open>
  The field \<^verbatim>\<open>id\<close> is \<open>rec_id\<close> here and \<^verbatim>\<open>context\<close> is \<open>nba_context\<close>
  (both names are taken in Isabelle); the fields of the log entry carry the prefix
  \<open>evt\<close> where they would clash with those of NbaRecord.
\<close>

record NbaRecord =
  rec_id :: string
  nba_definition_id :: string
  enterprise_number :: "string option"
  account_id :: "string option"
  contact_id :: "string option"
  active :: bool
  status :: string
  priority :: int
  nba_context :: pydict
  created_at :: instant
  updated_at :: instant

record NbaEventLogRecord =
  evt_id :: string
  evt_nba_id :: string
  evt_status :: string
  evt_context :: pydict
  acted_by :: "string option"
  action_at :: datetime

record UserContext =
  username :: string
  allowed_accounts :: "string set"
  allowed_clients :: "string set"

section \<open>In-memory repositories (adapters/inmemory/repositories.py)\<close>

text \<open>
  The three repositories are one record of state. \<^verbatim>\<open>_nbas\<close> is a Python dict, which
  keeps insertion order and whose \<^verbatim>\<open>values()\<close> are listed in that order, so it is an
  association list: \<open>map_of\<close> reads it and \<open>AList.update\<close> writes it (in place for a
  key that is there, at the end for a new one, as a dict does).
\<close>

record store =
  nbas :: "(string \<times> NbaRecord) list"
  event_to_nba_id :: "string \<rightharpoonup> string"
  events :: "NbaEventLogRecord list"
  processed :: "string set"

definition init_store :: store where
  "init_store = \<lparr>nbas = [], event_to_nba_id = Map.empty, events = [], processed = {}\<rparr>"

datatype error = HTTP_400_BAD_REQUEST | HTTP_404_NOT_FOUND | HTTP_409_CONFLICT | KeyError

definition match_identifiers :: "NbaRecord \<Rightarrow> string option \<Rightarrow> string option \<Rightarrow> bool" where
  "match_identifiers nba acc ent =
     ((acc = None \<or> account_id nba = acc) \<and> (ent = None \<or> enterprise_number nba = ent))"

text \<open>
  \<^verbatim>\<open>xs[lo:hi]\<close> of Python: a negative bound counts from the end, both bounds are
  clamped to the list, and an empty range gives the empty list.
\<close>

definition py_slice :: "'a list \<Rightarrow> int \<Rightarrow> int \<Rightarrow> 'a list" where
  "py_slice xs lo hi =
     (let n = int (length xs);
          a = (if lo < 0 then max 0 (n + lo) else min lo n);
          b = (if hi < 0 then max 0 (n + hi) else min hi n)
      in take (nat (b - a)) (drop (nat a) xs))"

text \<open>
  \<^verbatim>\<open>list.sort(key=..., reverse=True)\<close> is stable: CPython reverses the list, sorts it
  ascending with its stable sort and reverses the result.
\<close>

definition sort_reverse :: "('a \<Rightarrow> int) \<Rightarrow> 'a list \<Rightarrow> 'a list" where
  "sort_reverse k xs = rev (sort_key k (rev xs))"

definition list_nbas ::
  "store \<Rightarrow> string option \<Rightarrow> string option \<Rightarrow> string option \<Rightarrow> int \<Rightarrow> int
     \<Rightarrow> NbaRecord list \<times> nat" where
  "list_nbas s acc ent st limit offset =
     (let filtered = filter (\<lambda>nba. active nba \<and> match_identifiers nba acc ent
                                  \<and> (st = None \<or> Some (status nba) = st))
                            (map snd (nbas s));
          sorted_desc = sort_reverse created_at filtered;
          total = length sorted_desc
      in (py_slice sorted_desc offset (offset + limit), total))"

definition get_nba :: "store \<Rightarrow> string \<Rightarrow> NbaRecord option" where
  "get_nba s nid = map_of (nbas s) nid"

text \<open>
  \<^verbatim>\<open>uuid4().hex[:10]\<close> is an input of the model (\<open>h\<close>), and so is the reading of the
  clock (\<open>now\<close>): one reading stands for the calls of \<^verbatim>\<open>utc_now()\<close> of one operation.
\<close>

definition upsert_from_calculation_event ::
  "string \<Rightarrow> instant \<Rightarrow> store \<Rightarrow> string \<Rightarrow> string \<Rightarrow> string option \<Rightarrow> string option
     \<Rightarrow> string option \<Rightarrow> pydict \<Rightarrow> NbaRecord option \<times> store" where
  "upsert_from_calculation_event h now s event_id def_id ent acc con ctx =
     (case event_to_nba_id s event_id of
        Some nid \<Rightarrow> (map_of (nbas s) nid, s)
      | None \<Rightarrow>
          (let nba = \<lparr>rec_id = ''nba_'' @ h, nba_definition_id = def_id,
                      enterprise_number = ent, account_id = acc, contact_id = con,
                      active = True, status = NBA_STATUS_NEW, priority = 0,
                      nba_context = ctx, created_at = now, updated_at = now\<rparr>
           in (Some nba,
               s\<lparr>nbas := AList.update (rec_id nba) nba (nbas s),
                 event_to_nba_id := (event_to_nba_id s)(event_id \<mapsto> rec_id nba)\<rparr>)))"

definition update_status :: "instant \<Rightarrow> store \<Rightarrow> string \<Rightarrow> string \<Rightarrow> (error + NbaRecord) \<times> store" where
  "update_status now s nid st =
     (case map_of (nbas s) nid of
        None \<Rightarrow> (Inl KeyError, s)
      | Some existing \<Rightarrow>
          (let updated = existing\<lparr>status := st, updated_at := now\<rparr>
           in (Inr updated, s\<lparr>nbas := AList.update nid updated (nbas s)\<rparr>)))"

text \<open>
  The loop of \<^verbatim>\<open>deactivate_other_active_new_for_scope\<close> walks a snapshot
  \<^verbatim>\<open>list(self._nbas.items())\<close> and writes into the dict; the pair carried along is
  the dict and the counter.
\<close>

fun deactivate_scope_loop ::
  "instant \<Rightarrow> string \<Rightarrow> string \<Rightarrow> string option \<Rightarrow> string option \<Rightarrow> string option
     \<Rightarrow> (string \<times> NbaRecord) list \<Rightarrow> (string \<times> NbaRecord) list \<times> nat
     \<Rightarrow> (string \<times> NbaRecord) list \<times> nat" where
  "deactivate_scope_loop now keep def_id ent acc con [] dc = dc"
| "deactivate_scope_loop now keep def_id ent acc con ((nid, existing) # items) (d, c) =
     (if nid = keep then deactivate_scope_loop now keep def_id ent acc con items (d, c)
      else if \<not> active existing \<or> status existing \<noteq> NBA_STATUS_NEW
        then deactivate_scope_loop now keep def_id ent acc con items (d, c)
      else if nba_definition_id existing \<noteq> def_id
        then deactivate_scope_loop now keep def_id ent acc con items (d, c)
      else if enterprise_number existing \<noteq> ent
        then deactivate_scope_loop now keep def_id ent acc con items (d, c)
      else if account_id existing \<noteq> acc
        then deactivate_scope_loop now keep def_id ent acc con items (d, c)
      else if contact_id existing \<noteq> con
        then deactivate_scope_loop now keep def_id ent acc con items (d, c)
      else deactivate_scope_loop now keep def_id ent acc con items
             (AList.update nid (existing\<lparr>active := False, updated_at := now\<rparr>) d, c + 1))"

definition deactivate_other_active_new_for_scope ::
  "instant \<Rightarrow> store \<Rightarrow> string \<Rightarrow> string \<Rightarrow> string option \<Rightarrow> string option \<Rightarrow> string option
     \<Rightarrow> nat \<times> store" where
  "deactivate_other_active_new_for_scope now s keep def_id ent acc con =
     (let (d, c) = deactivate_scope_loop now keep def_id ent acc con (nbas s) (nbas s, 0)
      in (c, s\<lparr>nbas := d\<rparr>))"

text \<open>
  \<^verbatim>\<open>dict.fromkeys(nba_ids)\<close> inserts the ids one after the other into a fresh dict;
  its keys are then walked in insertion order.
\<close>

definition fromkeys :: "'a list \<Rightarrow> 'a list" where
  "fromkeys xs = fold (\<lambda>k ks. if k \<in> set ks then ks else ks @ [k]) xs []"

fun deactivate_ids_loop ::
  "instant \<Rightarrow> string list \<Rightarrow> (string \<times> NbaRecord) list \<times> nat \<Rightarrow> (string \<times> NbaRecord) list \<times> nat" where
  "deactivate_ids_loop now [] dc = dc"
| "deactivate_ids_loop now (nid # ids) (d, c) =
     (case map_of d nid of
        None \<Rightarrow> deactivate_ids_loop now ids (d, c)
      | Some existing \<Rightarrow>
          (if \<not> active existing then deactivate_ids_loop now ids (d, c)
           else deactivate_ids_loop now ids
                  (AList.update nid (existing\<lparr>active := False, updated_at := now\<rparr>) d, c + 1)))"

definition deactivate_nbas_by_ids :: "instant \<Rightarrow> store \<Rightarrow> string list \<Rightarrow> nat \<times> store" where
  "deactivate_nbas_by_ids now s nba_ids =
     (let (d, c) = deactivate_ids_loop now (fromkeys nba_ids) (nbas s, 0)
      in (c, s\<lparr>nbas := d\<rparr>))"

definition add :: "store \<Rightarrow> NbaEventLogRecord \<Rightarrow> NbaEventLogRecord \<times> store" where
  "add s event = (event, s\<lparr>events := events s @ [event]\<rparr>)"

definition list_for_nba :: "store \<Rightarrow> string \<Rightarrow> NbaEventLogRecord list" where
  "list_for_nba s nid = filter (\<lambda>event. evt_nba_id event = nid) (events s)"

text \<open>
  \<^verbatim>\<open>event.acted_by\<close> is tested for truth: \<^verbatim>\<open>None\<close> and the empty string both fail.
\<close>

definition truthy :: "string option \<Rightarrow> bool" where
  "truthy v = (case v of None \<Rightarrow> False | Some x \<Rightarrow> x \<noteq> [])"

definition find_action_event :: "store \<Rightarrow> string \<Rightarrow> string \<Rightarrow> NbaEventLogRecord option" where
  "find_action_event s nid st =
     find (\<lambda>event. evt_nba_id event = nid \<and> evt_status event = st \<and> truthy (acted_by event))
          (events s)"

definition is_processed :: "store \<Rightarrow> string \<Rightarrow> bool" where
  "is_processed s event_id = (event_id \<in> processed s)"

definition mark_processed :: "store \<Rightarrow> string \<Rightarrow> store" where
  "mark_processed s event_id = s\<lparr>processed := insert event_id (processed s)\<rparr>"

section \<open>Services (application/services.py)\<close>

text \<open>
  A failing call returns the error together with the store as the raise leaves it, so
  that what a failure has already written stays visible. \<^verbatim>\<open>assert_nba_access\<close> returns
  \<^verbatim>\<open>None\<close> for every user and is left out. \<open>h\<close> is the \<^verbatim>\<open>uuid4().hex[:10]\<close> of the
  new log entry and \<open>now\<close> the reading of the clock.
\<close>

definition register_action ::
  "string \<Rightarrow> instant \<Rightarrow> store \<Rightarrow> string \<Rightarrow> string \<Rightarrow> datetime option \<Rightarrow> string option
     \<Rightarrow> UserContext \<Rightarrow> (error + NbaEventLogRecord) \<times> store" where
  "register_action h now s nid status_value act_at comment user =
     (if status_value \<notin> ACTION_STATUSES then (Inl HTTP_400_BAD_REQUEST, s)
      else case get_nba s nid of
        None \<Rightarrow> (Inl HTTP_404_NOT_FOUND, s)
      | Some nba \<Rightarrow>
          (if status nba \<in> {NBA_STATUS_ACCEPTED, NBA_STATUS_REJECTED} then
             (if status nba = status_value then
                (case find_action_event s nid status_value of
                   Some existing \<Rightarrow> (Inr existing, s)
                 | None \<Rightarrow> (Inl HTTP_409_CONFLICT, s))
              else (Inl HTTP_409_CONFLICT, s))
           else
             (let final0 = (case act_at of Some a \<Rightarrow> a | None \<Rightarrow> utc_now now);
                  final_action_at =
                    (if tzinfo final0 = None then final0\<lparr>tzinfo := Some 0\<rparr> else final0)
              in case update_status now s nid status_value of
                   (Inl e, s1) \<Rightarrow> (Inl e, s1)
                 | (Inr u, s1) \<Rightarrow>
                     (let event = \<lparr>evt_id = ''evt_'' @ h, evt_nba_id = nid,
                                   evt_status = status_value,
                                   evt_context = (if truthy comment then [(''comment'', comment)] else []),
                                   acted_by = Some (username user),
                                   action_at = final_action_at\<rparr>;
                          (ev, s2) = add s1 event
                      in (Inr ev, s2)))))"

text \<open>
  The payload is the dict the queue carries. A key read with a subscript
  (\<^verbatim>\<open>event_id\<close>, \<^verbatim>\<open>nba_definition_id\<close>) is \<open>None\<close> when the dict lacks it, which
  raises KeyError; for a key read with \<^verbatim>\<open>get\<close>, \<open>None\<close> is the absent key and the
  default of the source applies. The reference-data collaborator is a parameter
  (\<open>None\<close> when it is not configured, as in main.py).
\<close>

record payload =
  event_id :: "string option"
  occurred_at :: "string option"
  source :: "string option"
  p_nba_definition_id :: "string option"
  p_enterprise_number :: "string option"
  p_account_id :: "string option"
  p_contact_id :: "string option"
  create_nba :: "bool option"
  deactivate_nba_ids :: "string list option"
  p_context :: "pydict option"

type_synonym reference_data = "string option \<Rightarrow> string option \<Rightarrow> string option \<times> string option"

type_synonym outcome = "string \<times> string"

text \<open>
  \<open>hn\<close> and \<open>he\<close> are the two \<^verbatim>\<open>uuid4().hex[:10]\<close> of one call (the new NBA and the
  log entry). The result dict \<^verbatim>\<open>{"action": a, "nba_id": n}\<close> is the pair \<open>(a, n)\<close>.
\<close>

definition process ::
  "reference_data option \<Rightarrow> string \<Rightarrow> string \<Rightarrow> instant \<Rightarrow> store \<Rightarrow> payload
     \<Rightarrow> (error + outcome) \<times> store" where
  "process ref hn he now s p =
     (case event_id p of
        None \<Rightarrow> (Inl KeyError, s)
      | Some eid \<Rightarrow>
          (if is_processed s eid then (Inr (''duplicate_skipped'', ''n/a''), s)
           else
             (let (acc, ent) = (case ref of
                                  None \<Rightarrow> (p_account_id p, p_enterprise_number p)
                                | Some enrich \<Rightarrow> enrich (p_account_id p) (p_enterprise_number p));
                  create = (case create_nba p of None \<Rightarrow> True | Some b \<Rightarrow> b);
                  ids = (case deactivate_nba_ids p of None \<Rightarrow> [] | Some l \<Rightarrow> l);
                  s1 = (if ids \<noteq> [] then snd (deactivate_nbas_by_ids now s ids) else s)
              in if \<not> create
                 then (Inr (''deactivated_only'', ''n/a''), mark_processed s1 eid)
                 else
                   (case p_nba_definition_id p of
                      None \<Rightarrow> (Inl KeyError, s1)
                    | Some def_id \<Rightarrow>
                        (case upsert_from_calculation_event hn now s1 eid def_id ent acc
                                (p_contact_id p)
                                (case p_context p of None \<Rightarrow> [] | Some c \<Rightarrow> c) of
                           (None, s2) \<Rightarrow> (Inr (''created'', ''n/a''), mark_processed s2 eid)
                         | (Some nba, s2) \<Rightarrow>
                             (let s3 = snd (deactivate_other_active_new_for_scope now s2
                                              (rec_id nba) (nba_definition_id nba)
                                              (enterprise_number nba) (account_id nba)
                                              (contact_id nba));
                                  s4 = snd (add s3
                                         \<lparr>evt_id = ''evt_'' @ he, evt_nba_id = rec_id nba,
                                          evt_status = NBA_STATUS_NEW,
                                          evt_context = [(''source'', source p),
                                                         (''occurred_at'', occurred_at p)],
                                          acted_by = None, action_at = utc_now now\<rparr>)
                              in (Inr (''created'', rec_id nba), mark_processed s4 eid)))))))"

text \<open>
  \<^verbatim>\<open>queue_worker\<close> of main.py hands the payloads to \<open>process\<close> one at a time; an
  exception ends the task, so the events after it are not processed. Each event comes
  with the randomness and the clock reading of its call.
\<close>

type_synonym delivery = "string \<times> string \<times> instant \<times> payload"

fun queue_worker :: "reference_data option \<Rightarrow> store \<Rightarrow> delivery list \<Rightarrow> store" where
  "queue_worker ref s [] = s"
| "queue_worker ref s ((hn, he, now, p) # rest) =
     (case process ref hn he now s p of
        (Inl e, s') \<Rightarrow> s'
      | (Inr r, s') \<Rightarrow> queue_worker ref s' rest)"

section \<open>Sample data\<close>

text \<open>
  \<open>get_user_context\<close> is the one of api/dependencies.py: every request acts as the
  user \<^verbatim>\<open>system\<close>. The sample store holds one NBA, the event that created it and
  the log entry of its creation; its parameter is the status of the NBA.
\<close>

definition get_user_context :: UserContext where
  "get_user_context = \<lparr>username = ''system'', allowed_accounts = {}, allowed_clients = {}\<rparr>"

definition sample_nba :: NbaRecord where
  "sample_nba = \<lparr>rec_id = ''nba_0a1b2c3d4e'', nba_definition_id = ''upsell'',
                  enterprise_number = Some ''0123456789'', account_id = Some ''acc-1'',
                  contact_id = None, active = True, status = NBA_STATUS_NEW, priority = 0,
                  nba_context = [], created_at = 100, updated_at = 100\<rparr>"

definition sample_store :: "string \<Rightarrow> store" where
  "sample_store st =
     \<lparr>nbas = [(''nba_0a1b2c3d4e'', sample_nba\<lparr>status := st\<rparr>)],
      event_to_nba_id = [''e-1'' \<mapsto> ''nba_0a1b2c3d4e''],
      events = [\<lparr>evt_id = ''evt_00000000aa'', evt_nba_id = ''nba_0a1b2c3d4e'',
                 evt_status = NBA_STATUS_NEW,
                 evt_context = [(''source'', Some ''calculator''), (''occurred_at'', None)],
                 acted_by = None, action_at = utc_now 100\<rparr>],
      processed = {''e-1''}\<rparr>"

definition sample_payload :: "string \<Rightarrow> payload" where
  "sample_payload eid =
     \<lparr>event_id = Some eid, occurred_at = Some ''2024-05-01T10:00:00Z'',
      source = Some ''calculator'', p_nba_definition_id = Some ''upsell'',
      p_enterprise_number = Some ''0123456789'', p_account_id = Some ''acc-1'',
      p_contact_id = None, create_nba = Some True, deactivate_nba_ids = Some [],
      p_context = Some []\<rparr>"

section \<open>Notions used in the statements\<close>

text \<open>
  The requests that write to the stores are the calculation events and the actions
  (\<open>list_nbas\<close> only reads); \<open>serve_all\<close> runs a list of them, keeping the store of
  a failed request as the failure left it.
\<close>

datatype request =
    Calculation string string instant payload
  | Action string instant string string "datetime option" "string option" UserContext

fun serve :: "reference_data option \<Rightarrow> store \<Rightarrow> request \<Rightarrow> store" where
  "serve ref s (Calculation hn he now p) = snd (process ref hn he now s p)"
| "serve ref s (Action h now nid st act_at comment user) =
     snd (register_action h now s nid st act_at comment user)"

definition serve_all :: "reference_data option \<Rightarrow> store \<Rightarrow> request list \<Rightarrow> store" where
  "serve_all ref s rs = fold (\<lambda>r s'. serve ref s' r) rs s"

text \<open>
  Deduplication that keeps the first occurrence of each element, in the words of the
  specification; \<open>fromkeys\<close> above is what the code does.
\<close>

primrec dedup_first :: "'a list \<Rightarrow> 'a list" where
  "dedup_first [] = []"
| "dedup_first (x # xs) = x # filter (\<lambda>y. y \<noteq> x) (dedup_first xs)"

text \<open>
  A record counts for a scope tuple when it is active, new and has exactly these four
  identifiers (\<open>None\<close> equals only \<open>None\<close>).
\<close>

definition in_scope :: "NbaRecord \<Rightarrow> string \<Rightarrow> string option \<Rightarrow> string option \<Rightarrow> string option \<Rightarrow> bool" where
  "in_scope r def_id ent acc con =
     (active r \<and> status r = NBA_STATUS_NEW \<and> nba_definition_id r = def_id
      \<and> enterprise_number r = ent \<and> account_id r = acc \<and> contact_id r = con)"

definition active_new_in_scope ::
  "store \<Rightarrow> string \<Rightarrow> string option \<Rightarrow> string option \<Rightarrow> string option \<Rightarrow> NbaRecord list" where
  "active_new_in_scope s def_id ent acc con =
     filter (\<lambda>r. in_scope r def_id ent acc con) (map snd (nbas s))"

definition exclusive :: "(string \<times> NbaRecord) list \<Rightarrow> bool" where
  "exclusive d =
     (\<forall>i j r r' def_id ent acc con.
        map_of d i = Some r \<and> map_of d j = Some r' \<and> in_scope r def_id ent acc con
          \<and> in_scope r' def_id ent acc con \<longrightarrow> i = j)"

text \<open>
  The account id and the enterprise number that \<open>process\<close> works with: those of the
  payload, passed through the reference data when it is configured.
\<close>

definition target_identifiers :: "reference_data option \<Rightarrow> payload \<Rightarrow> string option \<times> string option" where
  "target_identifiers ref p =
     (case ref of
        None \<Rightarrow> (p_account_id p, p_enterprise_number p)
      | Some enrich \<Rightarrow> enrich (p_account_id p) (p_enterprise_number p))"

text \<open>The store after the deactivation by ids that opens \<open>process\<close>.\<close>

definition after_deactivation :: "instant \<Rightarrow> store \<Rightarrow> payload \<Rightarrow> store" where
  "after_deactivation now s p =
     (case deactivate_nba_ids p of
        None \<Rightarrow> s
      | Some ids \<Rightarrow> if ids \<noteq> [] then snd (deactivate_nbas_by_ids now s ids) else s)"

text \<open>
  What the calculation events keep true of the stores: scopes are exclusive, the keys
  of the NBA store are distinct (it is a dict), and an event id with an association
  has been marked processed.
\<close>

definition reachable_inv :: "store \<Rightarrow> bool" where
  "reachable_inv s = (exclusive (nbas s) \<and> distinct (map fst (nbas s))
                      \<and> dom (event_to_nba_id s) \<subseteq> processed s)"

text \<open>
  A store for the listing: ten active new NBAs of one scope, created at the instants
  1 to 10 and inserted in another order, one inactive NBA and one of another account.
\<close>

definition numbered :: "string \<Rightarrow> instant \<Rightarrow> string \<times> NbaRecord" where
  "numbered k t = (k, sample_nba\<lparr>rec_id := k, created_at := t, updated_at := t\<rparr>)"

definition ten_store :: store where
  "ten_store = init_store
     \<lparr>nbas := [numbered ''nba_03'' 3, numbered ''nba_01'' 1, numbered ''nba_08'' 8,
               (''nba_xx'', sample_nba\<lparr>rec_id := ''nba_xx'', active := False, created_at := 6\<rparr>),
               numbered ''nba_10'' 10, numbered ''nba_05'' 5, numbered ''nba_02'' 2,
               (''nba_yy'', sample_nba\<lparr>rec_id := ''nba_yy'', account_id := Some ''acc-2'',
                                       created_at := 7\<rparr>),
               numbered ''nba_07'' 7, numbered ''nba_04'' 4, numbered ''nba_09'' 9,
               numbered ''nba_06'' 6]\<rparr>"




section \<open>Properties of the action service\<close>

lemmas status_defs =
  NBA_STATUS_NEW_def NBA_STATUS_ACCEPTED_def NBA_STATUS_REJECTED_def ACTION_STATUSES_def

lemma map_of_update: "map_of (AList.update k v al) = (map_of al)(k \<mapsto> v)"
  by (rule update_conv')


lemma register_action_new:
  assumes g: "get_nba s nid = Some nba"
    and n: "status nba \<notin> {NBA_STATUS_ACCEPTED, NBA_STATUS_REJECTED}"
    and v: "st \<in> ACTION_STATUSES"
  shows "register_action h now s nid st act_at comment user =
     (let ev = \<lparr>evt_id = ''evt_'' @ h, evt_nba_id = nid, evt_status = st,
                evt_context = (if truthy comment then [(''comment'', comment)] else []),
                acted_by = Some (username user),
                action_at = (case act_at of
                               None \<Rightarrow> utc_now now
                             | Some a \<Rightarrow> if tzinfo a = None then a\<lparr>tzinfo := Some 0\<rparr> else a)\<rparr>
      in (Inr ev, s\<lparr>nbas := AList.update nid (nba\<lparr>status := st, updated_at := now\<rparr>) (nbas s),
                    events := events s @ [ev]\<rparr>))"
  using g n v
  by (cases act_at) (simp_all add: register_action_def update_status_def add_def get_nba_def Let_def utc_now_def)

lemma register_action_success_status:
  assumes "register_action h now s nid st act_at comment user = (Inr ev, s')"
  shows "\<exists>nba. get_nba s' nid = Some nba \<and> status nba = st \<and> st \<in> ACTION_STATUSES"
proof -
  from assms have v: "st \<in> ACTION_STATUSES"
    by (auto simp: register_action_def split: if_splits)
  from assms v obtain nba where g: "get_nba s nid = Some nba"
    by (auto simp: register_action_def split: option.splits)
  show ?thesis
  proof (cases "status nba \<in> {NBA_STATUS_ACCEPTED, NBA_STATUS_REJECTED}")
    case True
    with assms v g have "s' = s \<and> status nba = st"
      by (auto simp: register_action_def split: if_splits option.splits)
    with g v show ?thesis by auto
  next
    case False
    from register_action_new [OF g False v, of h now act_at comment user] assms
    have "s' = s\<lparr>nbas := AList.update nid (nba\<lparr>status := st, updated_at := now\<rparr>) (nbas s),
                  events := events s @ [ev]\<rparr>"
      by (simp add: Let_def)
    then show ?thesis using v by (simp add: get_nba_def map_of_update)
  qed
qed

lemma sample_get: "get_nba (sample_store st) ''nba_0a1b2c3d4e'' = Some (sample_nba\<lparr>status := st\<rparr>)"
  by (simp add: get_nba_def sample_store_def)


lemma sample_accept:
  "register_action ''1111111111'' 500 (sample_store NBA_STATUS_NEW) ''nba_0a1b2c3d4e''
      NBA_STATUS_ACCEPTED None None get_user_context
   = (Inr \<lparr>evt_id = ''evt_1111111111'', evt_nba_id = ''nba_0a1b2c3d4e'',
           evt_status = NBA_STATUS_ACCEPTED, evt_context = [], acted_by = Some ''system'',
           action_at = utc_now 500\<rparr>,
      (sample_store NBA_STATUS_NEW)
        \<lparr>nbas := [(''nba_0a1b2c3d4e'', sample_nba\<lparr>status := NBA_STATUS_ACCEPTED, updated_at := 500\<rparr>)],
         events := events (sample_store NBA_STATUS_NEW) @
           [\<lparr>evt_id = ''evt_1111111111'', evt_nba_id = ''nba_0a1b2c3d4e'',
             evt_status = NBA_STATUS_ACCEPTED, evt_context = [], acted_by = Some ''system'',
             action_at = utc_now 500\<rparr>]\<rparr>)"
proof -
  have n: "status (sample_nba\<lparr>status := NBA_STATUS_NEW\<rparr>) \<notin> {NBA_STATUS_ACCEPTED, NBA_STATUS_REJECTED}"
    by (simp add: status_defs)
  have v: "NBA_STATUS_ACCEPTED \<in> ACTION_STATUSES" by (simp add: status_defs)
  show ?thesis
    by (simp add: register_action_new [OF sample_get n v] Let_def truthy_def get_user_context_def)
       (simp add: sample_store_def)
qed

text \<open>
  Claim C7. An action on an id that the NBA store does not hold fails with the 404 of
  the source (the NotFoundError of the specification) and leaves the store as it was.
  The status is validated before the lookup: a status that is neither accepted nor
  rejected fails with the 400 (the ValidationError), also on an unknown id.
\<close>

theorem register_action_unknown_id:
  "get_nba s nid = None \<Longrightarrow>
     (st \<in> ACTION_STATUSES \<longrightarrow>
        register_action h now s nid st act_at comment user = (Inl HTTP_404_NOT_FOUND, s)) \<and>
     (st \<notin> ACTION_STATUSES \<longrightarrow>
        register_action h now s nid st act_at comment user = (Inl HTTP_400_BAD_REQUEST, s))"
  by (simp add: register_action_def)

theorem register_action_unknown_id_witness:
  "register_action ''0a1b2c3d4e'' 5 init_store ''nba_missing'' ''accepted'' None None
      \<lparr>username = ''system'', allowed_accounts = {}, allowed_clients = {}\<rparr>
     = (Inl HTTP_404_NOT_FOUND, init_store) \<and>
   register_action ''0a1b2c3d4e'' 5 init_store ''nba_missing'' ''postponed'' None None
      \<lparr>username = ''system'', allowed_accounts = {}, allowed_clients = {}\<rparr>
     = (Inl HTTP_400_BAD_REQUEST, init_store)"
proof -
  have h: "get_nba init_store ''nba_missing'' = None"
    by (simp add: get_nba_def init_store_def)
  have a: "''accepted'' \<in> ACTION_STATUSES" and b: "''postponed'' \<notin> ACTION_STATUSES"
    by (simp_all add: status_defs)
  from register_action_unknown_id [OF h, of "''accepted''"] a
       register_action_unknown_id [OF h, of "''postponed''"] b
  show ?thesis by blast
qed

text \<open>
  Claim C9. When the NBA already has a terminal status, the request repeats that status
  and the event log holds no entry of this NBA with this status and an \<open>acted_by\<close>
  that is not \<open>None\<close>, the call fails with the 409 of the source (the ConflictError)
  and leaves both stores as they were: no log entry is made up.
\<close>

theorem register_action_terminal_without_log_entry:
  "get_nba s nid = Some nba \<Longrightarrow> status nba \<in> {NBA_STATUS_ACCEPTED, NBA_STATUS_REJECTED} \<Longrightarrow>
   \<forall>e \<in> set (events s). \<not> (evt_nba_id e = nid \<and> evt_status e = status nba \<and> acted_by e \<noteq> None) \<Longrightarrow>
   register_action h now s nid (status nba) act_at comment user = (Inl HTTP_409_CONFLICT, s)"
proof -
  assume g: "get_nba s nid = Some nba"
    and t: "status nba \<in> {NBA_STATUS_ACCEPTED, NBA_STATUS_REJECTED}"
    and n: "\<forall>e \<in> set (events s). \<not> (evt_nba_id e = nid \<and> evt_status e = status nba \<and> acted_by e \<noteq> None)"
  have "find_action_event s nid (status nba) = None"
    unfolding find_action_event_def find_None_iff using n by (auto simp: truthy_def)
  with g t show ?thesis
    by (simp add: register_action_def ACTION_STATUSES_def)
qed

theorem register_action_terminal_without_log_entry_witness:
  "register_action ''1111111111'' 500 (sample_store NBA_STATUS_ACCEPTED) ''nba_0a1b2c3d4e''
      NBA_STATUS_ACCEPTED None None get_user_context
     = (Inl HTTP_409_CONFLICT, sample_store NBA_STATUS_ACCEPTED)"
proof -
  have g: "get_nba (sample_store NBA_STATUS_ACCEPTED) ''nba_0a1b2c3d4e''
             = Some (sample_nba\<lparr>status := NBA_STATUS_ACCEPTED\<rparr>)"
    by (rule sample_get)
  have t: "status (sample_nba\<lparr>status := NBA_STATUS_ACCEPTED\<rparr>)
             \<in> {NBA_STATUS_ACCEPTED, NBA_STATUS_REJECTED}"
    by simp
  have n: "\<forall>e \<in> set (events (sample_store NBA_STATUS_ACCEPTED)).
             \<not> (evt_nba_id e = ''nba_0a1b2c3d4e''
                \<and> evt_status e = status (sample_nba\<lparr>status := NBA_STATUS_ACCEPTED\<rparr>)
                \<and> acted_by e \<noteq> None)"
    by (simp add: sample_store_def)
  from register_action_terminal_without_log_entry [OF g t n]
  show ?thesis by simp
qed

text \<open>
  Claim C4. Once an accept has succeeded on an NBA, its status is accepted, and a
  reject on the same NBA fails with the 409 (the ConflictError); the failing call
  returns the store it was given, so the status stays accepted and neither the records
  nor the log change.
\<close>

theorem register_action_rejected_after_accepted:
  "register_action h now s nid NBA_STATUS_ACCEPTED act_at comment user = (Inr ev, s') \<Longrightarrow>
     (\<exists>nba. get_nba s' nid = Some nba \<and> status nba = NBA_STATUS_ACCEPTED) \<and>
     register_action h' now' s' nid NBA_STATUS_REJECTED act_at' comment' user'
       = (Inl HTTP_409_CONFLICT, s')"
proof -
  assume a: "register_action h now s nid NBA_STATUS_ACCEPTED act_at comment user = (Inr ev, s')"
  from register_action_success_status [OF a]
  obtain nba where g: "get_nba s' nid = Some nba" and st: "status nba = NBA_STATUS_ACCEPTED"
    by blast
  have "register_action h' now' s' nid NBA_STATUS_REJECTED act_at' comment' user'
       = (Inl HTTP_409_CONFLICT, s')"
    using g st by (simp add: register_action_def status_defs)
  with g st show ?thesis by blast
qed

theorem register_action_rejected_after_accepted_witness:
  "register_action ''2222222222'' 600
      (snd (register_action ''1111111111'' 500 (sample_store NBA_STATUS_NEW) ''nba_0a1b2c3d4e''
              NBA_STATUS_ACCEPTED None None get_user_context))
      ''nba_0a1b2c3d4e'' NBA_STATUS_REJECTED None None get_user_context
   = (Inl HTTP_409_CONFLICT,
      snd (register_action ''1111111111'' 500 (sample_store NBA_STATUS_NEW) ''nba_0a1b2c3d4e''
              NBA_STATUS_ACCEPTED None None get_user_context))"
  using register_action_rejected_after_accepted [OF sample_accept]
  by (simp add: sample_accept)




text \<open>
  Claim C8, as amended. On an NBA whose status is new and for a valid action status,
  the entry returned has the current UTC time when no timestamp came with the request;
  a naive timestamp gets the UTC zone and keeps its wall-clock reading; a timestamp
  that carries an offset is kept as it is. So \<open>action_at\<close> is always timezone-aware,
  and it is UTC when it was defaulted or given naive. \<open>acted_by\<close> is the name of the
  acting user, and the context carries the comment exactly when a comment that is not
  empty came with the request.
\<close>

theorem register_action_new_entry:
  assumes g: "get_nba s nid = Some nba"
    and n: "status nba = NBA_STATUS_NEW"
    and v: "st \<in> ACTION_STATUSES"
  shows "\<exists>ev s'. register_action h now s nid st act_at comment user = (Inr ev, s') \<and>
     action_at ev = (case act_at of
                       None \<Rightarrow> utc_now now
                     | Some a \<Rightarrow> if tzinfo a = None then a\<lparr>tzinfo := Some 0\<rparr> else a) \<and>
     tzinfo (action_at ev) \<noteq> None \<and>
     ((act_at = None \<or> (\<exists>a. act_at = Some a \<and> tzinfo a = None))
        \<longrightarrow> tzinfo (action_at ev) = Some 0) \<and>
     acted_by ev = Some (username user) \<and>
     evt_context ev = (if comment = None \<or> comment = Some [] then []
                       else [(''comment'', comment)])"
proof -
  from n have n': "status nba \<notin> {NBA_STATUS_ACCEPTED, NBA_STATUS_REJECTED}"
    by (simp add: status_defs)
  show ?thesis
    unfolding register_action_new [OF g n' v] Let_def
    by (cases act_at; cases comment) (auto simp: utc_now_def truthy_def)
qed

theorem register_action_new_entry_witness:
  "fst (register_action ''1111111111'' 500 (sample_store NBA_STATUS_NEW) ''nba_0a1b2c3d4e''
      NBA_STATUS_REJECTED (Some \<lparr>wall = 300, tzinfo = None\<rparr>) (Some ''too late'') get_user_context)
   = Inr \<lparr>evt_id = ''evt_1111111111'', evt_nba_id = ''nba_0a1b2c3d4e'',
          evt_status = NBA_STATUS_REJECTED, evt_context = [(''comment'', Some ''too late'')],
          acted_by = Some ''system'', action_at = \<lparr>wall = 300, tzinfo = Some 0\<rparr>\<rparr>"
proof -
  have n: "status (sample_nba\<lparr>status := NBA_STATUS_NEW\<rparr>) = NBA_STATUS_NEW" by simp
  have v: "NBA_STATUS_REJECTED \<in> ACTION_STATUSES" by (simp add: status_defs)
  have n': "status (sample_nba\<lparr>status := NBA_STATUS_NEW\<rparr>) \<notin> {NBA_STATUS_ACCEPTED, NBA_STATUS_REJECTED}"
    by (simp add: status_defs)
  from register_action_new_entry [OF sample_get n v,
         of "''1111111111''" 500 "Some \<lparr>wall = 300, tzinfo = None\<rparr>" "Some ''too late''" get_user_context]
  show ?thesis
    by (auto simp: register_action_new [OF sample_get n' v] Let_def truthy_def get_user_context_def)
qed

text \<open>
  The claim C8 as first stated fails: a timestamp with the offset +02:00 comes back
  with that offset, not in UTC, and the empty comment, though supplied, is not carried
  in the context.
\<close>

theorem register_action_keeps_offset_and_drops_empty_comment:
  "fst (register_action ''1111111111'' 500 (sample_store NBA_STATUS_NEW) ''nba_0a1b2c3d4e''
      NBA_STATUS_ACCEPTED (Some \<lparr>wall = 300, tzinfo = Some 120\<rparr>) (Some []) get_user_context)
   = Inr \<lparr>evt_id = ''evt_1111111111'', evt_nba_id = ''nba_0a1b2c3d4e'',
          evt_status = NBA_STATUS_ACCEPTED, evt_context = [],
          acted_by = Some ''system'', action_at = \<lparr>wall = 300, tzinfo = Some 120\<rparr>\<rparr>"
proof -
  have v: "NBA_STATUS_ACCEPTED \<in> ACTION_STATUSES" by (simp add: status_defs)
  have n': "status (sample_nba\<lparr>status := NBA_STATUS_NEW\<rparr>) \<notin> {NBA_STATUS_ACCEPTED, NBA_STATUS_REJECTED}"
    by (simp add: status_defs)
  show ?thesis
    by (simp add: register_action_new [OF sample_get n' v] Let_def truthy_def get_user_context_def)
qed

section \<open>Properties of the repositories and of the event processor\<close>

lemma map_of_keys: "map_of d k = Some v \<Longrightarrow> k \<in> set (map fst d)"
  by (metis map_of_eq_None_iff option.distinct(1) set_map)

lemma update_present_keys: "k \<in> set (map fst d) \<Longrightarrow> map fst (AList.update k v d) = map fst d"
  by (simp add: update_keys)

subsection \<open>The loop of deactivate\_nbas\_by\_ids\<close>

lemma deactivate_ids_loop_keys:
  "map fst (fst (deactivate_ids_loop now ids (d, c))) = map fst d"
proof (induction ids arbitrary: d c)
  case Nil
  show ?case by simp
next
  case (Cons nid ids)
  show ?case
  proof (cases "map_of d nid")
    case None
    then show ?thesis using Cons.IH by simp
  next
    case (Some existing)
    then have "nid \<in> set (map fst d)" by (rule map_of_keys)
    then show ?thesis using Some Cons.IH by (simp add: update_present_keys)
  qed
qed

lemma deactivate_ids_loop_lookup:
  "map_of (fst (deactivate_ids_loop now ids (d, c))) k =
     (if k \<in> set ids
      then map_option (\<lambda>r. if active r then r\<lparr>active := False, updated_at := now\<rparr> else r) (map_of d k)
      else map_of d k)"
proof (induction ids arbitrary: d c)
  case Nil
  show ?case by simp
next
  case (Cons nid ids)
  show ?case
  proof (cases "map_of d nid")
    case None
    then show ?thesis using Cons.IH [of d c] by auto
  next
    case (Some existing)
    show ?thesis
    proof (cases "active existing")
      case False
      then show ?thesis using Some Cons.IH [of d c] by auto
    next
      case True
      then show ?thesis
        using Some Cons.IH [of "AList.update nid (existing\<lparr>active := False, updated_at := now\<rparr>) d" "c + 1"]
        by (auto simp: update_conv')
    qed
  qed
qed

lemma deactivate_ids_loop_count:
  "distinct ids \<Longrightarrow>
   snd (deactivate_ids_loop now ids (d, c)) =
     c + length (filter (\<lambda>k. case map_of d k of Some r \<Rightarrow> active r | None \<Rightarrow> False) ids)"
proof (induction ids arbitrary: d c)
  case Nil
  show ?case by simp
next
  case (Cons nid ids)
  from Cons.prems have dist: "distinct ids" and notin: "nid \<notin> set ids" by simp_all
  show ?case
  proof (cases "map_of d nid")
    case None
    then show ?thesis using Cons.IH [OF dist, of d c] by simp
  next
    case (Some existing)
    show ?thesis
    proof (cases "active existing")
      case False
      then show ?thesis using Some Cons.IH [OF dist, of d c] by simp
    next
      case True
      let ?d = "AList.update nid (existing\<lparr>active := False, updated_at := now\<rparr>) d"
      have "filter (\<lambda>k. case map_of ?d k of Some r \<Rightarrow> active r | None \<Rightarrow> False) ids
            = filter (\<lambda>k. case map_of d k of Some r \<Rightarrow> active r | None \<Rightarrow> False) ids"
        using notin by (intro filter_cong) (auto simp: update_conv')
      then show ?thesis using Some True Cons.IH [OF dist, of ?d "c + 1"] by simp
    qed
  qed
qed

subsection \<open>dict.fromkeys keeps first occurrences\<close>

lemma fromkeys_fold:
  "fold (\<lambda>k ks. if k \<in> set ks then ks else ks @ [k]) xs acc
     = acc @ filter (\<lambda>y. y \<notin> set acc) (dedup_first xs)"
proof (induction xs arbitrary: acc)
  case Nil
  show ?case by simp
next
  case (Cons x xs)
  show ?case
  proof (cases "x \<in> set acc")
    case True
    then have "filter (\<lambda>y. y \<notin> set acc) (filter (\<lambda>y. y \<noteq> x) (dedup_first xs))
               = filter (\<lambda>y. y \<notin> set acc) (dedup_first xs)"
      by (auto simp: filter_filter intro: filter_cong)
    with True Cons.IH [of acc] show ?thesis by simp
  next
    case False
    have "filter (\<lambda>y. y \<notin> set (acc @ [x])) (dedup_first xs)
          = filter (\<lambda>y. y \<notin> set acc) (filter (\<lambda>y. y \<noteq> x) (dedup_first xs))"
      by (auto simp: filter_filter intro: filter_cong)
    with False Cons.IH [of "acc @ [x]"] show ?thesis by simp
  qed
qed

lemma fromkeys_dedup_first: "fromkeys xs = dedup_first xs"
  by (simp add: fromkeys_def fromkeys_fold)

lemma set_dedup_first: "set (dedup_first xs) = set xs"
  by (induction xs) auto

lemma distinct_dedup_first: "distinct (dedup_first xs)"
  by (induction xs) (auto simp: set_dedup_first)

subsection \<open>The loop of deactivate\_other\_active\_new\_for\_scope\<close>

lemma deactivate_scope_loop_keys:
  "set (map fst items) \<subseteq> set (map fst d) \<Longrightarrow>
     map fst (fst (deactivate_scope_loop now keep def_id ent acc con items (d, c))) = map fst d"
proof (induction items arbitrary: d c)
  case Nil
  show ?case by simp
next
  case (Cons it items)
  obtain nid existing where it: "it = (nid, existing)" by (cases it)
  from Cons.prems it have k: "nid \<in> set (map fst d)" and sub: "set (map fst items) \<subseteq> set (map fst d)"
    by auto
  have sub': "\<And>v. set (map fst items) \<subseteq> set (map fst (AList.update nid v d))"
    using sub k by (simp add: update_present_keys)
  show ?case
    using Cons.IH [OF sub, of c] Cons.IH [OF sub', of _ "c + 1"] k
    by (simp add: it update_present_keys)
qed

lemma deactivate_scope_loop_active:
  "map_of (fst (deactivate_scope_loop now keep def_id ent acc con items (d, c))) k = Some r \<Longrightarrow>
   active r \<Longrightarrow> map_of d k = Some r"
proof (induction items arbitrary: d c)
  case Nil
  then show ?case by simp
next
  case (Cons it items)
  obtain nid existing where it: "it = (nid, existing)" by (cases it)
  show ?case
  proof (cases "nid \<noteq> keep \<and> in_scope existing def_id ent acc con")
    case False
    then have "deactivate_scope_loop now keep def_id ent acc con (it # items) (d, c)
               = deactivate_scope_loop now keep def_id ent acc con items (d, c)"
      by (auto simp: it in_scope_def)
    with Cons show ?thesis by simp
  next
    case True
    let ?d = "AList.update nid (existing\<lparr>active := False, updated_at := now\<rparr>) d"
    from True have "deactivate_scope_loop now keep def_id ent acc con (it # items) (d, c)
               = deactivate_scope_loop now keep def_id ent acc con items (?d, c + 1)"
      by (auto simp: it in_scope_def)
    with Cons.prems Cons.IH [of ?d "c + 1"] have "map_of ?d k = Some r" by simp
    with Cons.prems(2) show ?thesis by (auto simp: update_conv' split: if_splits)
  qed
qed

lemma deactivate_scope_loop_hit:
  "(k, x) \<in> set items \<Longrightarrow> k \<noteq> keep \<Longrightarrow> in_scope x def_id ent acc con \<Longrightarrow>
   map_of (fst (deactivate_scope_loop now keep def_id ent acc con items (d, c))) k = Some r \<Longrightarrow>
   (map_of d k = Some x \<longrightarrow> \<not> active r)"
proof (induction items arbitrary: d c)
  case Nil
  then show ?case by simp
next
  case (Cons it items)
  obtain nid existing where it: "it = (nid, existing)" by (cases it)
  show ?case
  proof (cases "nid \<noteq> keep \<and> in_scope existing def_id ent acc con")
    case False
    then have eq: "deactivate_scope_loop now keep def_id ent acc con (it # items) (d, c)
               = deactivate_scope_loop now keep def_id ent acc con items (d, c)"
      by (auto simp: it in_scope_def)
    from False Cons.prems(1,2,3) it have "(k, x) \<in> set items" by auto
    from Cons.IH [OF this Cons.prems(2,3), of d c] Cons.prems(4) eq show ?thesis by simp
  next
    case True
    let ?d = "AList.update nid (existing\<lparr>active := False, updated_at := now\<rparr>) d"
    from True have eq: "deactivate_scope_loop now keep def_id ent acc con (it # items) (d, c)
               = deactivate_scope_loop now keep def_id ent acc con items (?d, c + 1)"
      by (auto simp: it in_scope_def)
    show ?thesis
    proof
      assume dk: "map_of d k = Some x"
      show "\<not> active r"
      proof
        assume a: "active r"
        from Cons.prems(4) eq have "map_of (fst (deactivate_scope_loop now keep def_id ent acc con items (?d, c + 1))) k = Some r"
          by simp
        from deactivate_scope_loop_active [OF this a] have dk': "map_of ?d k = Some r" .
        show False
        proof (cases "k = nid")
          case True
          with dk' a show False by (auto simp: update_conv')
        next
          case False
          with dk' dk have rx: "r = x" by (simp add: update_conv')
          from False Cons.prems(1) it have "(k, x) \<in> set items" by auto
          from Cons.IH [OF this Cons.prems(2,3), of ?d "c + 1"] Cons.prems(4) eq dk False a rx
          show False by (simp add: update_conv')
        qed
      qed
    qed
  qed
qed

lemma deactivate_scope_loop_keep:
  "map_of (fst (deactivate_scope_loop now keep def_id ent acc con items (d, c))) keep = map_of d keep"
proof (induction items arbitrary: d c)
  case Nil
  show ?case by simp
next
  case (Cons it items)
  obtain nid existing where it: "it = (nid, existing)" by (cases it)
  show ?case
    using Cons.IH [of d c]
          Cons.IH [of "AList.update nid (existing\<lparr>active := False, updated_at := now\<rparr>) d" "c + 1"]
    by (auto simp: it update_conv')
qed

subsection \<open>The steps of process\<close>

lemma deactivate_nbas_by_ids_frame:
  "snd (deactivate_nbas_by_ids now s ids) =
     s\<lparr>nbas := fst (deactivate_ids_loop now (fromkeys ids) (nbas s, 0))\<rparr>"
  by (simp add: deactivate_nbas_by_ids_def split_def Let_def)

lemma deactivate_other_frame:
  "snd (deactivate_other_active_new_for_scope now s keep d e a c) =
     s\<lparr>nbas := fst (deactivate_scope_loop now keep d e a c (nbas s) (nbas s, 0))\<rparr>"
  by (simp add: deactivate_other_active_new_for_scope_def split_def Let_def)

lemma after_deactivation_frame:
  "event_to_nba_id (after_deactivation now s p) = event_to_nba_id s"
  "events (after_deactivation now s p) = events s"
  "processed (after_deactivation now s p) = processed s"
  "map fst (nbas (after_deactivation now s p)) = map fst (nbas s)"
  by (auto simp: after_deactivation_def deactivate_nbas_by_ids_frame deactivate_ids_loop_keys
      split: option.splits)

lemma after_deactivation_active:
  "map_of (nbas (after_deactivation now s p)) k = Some r \<Longrightarrow> active r \<Longrightarrow>
     map_of (nbas s) k = Some r"
  by (auto simp: after_deactivation_def deactivate_nbas_by_ids_frame deactivate_ids_loop_lookup
      split: option.splits if_splits)

lemma process_unfold:
  "process ref hn he now s p =
     (case event_id p of
        None \<Rightarrow> (Inl KeyError, s)
      | Some eid \<Rightarrow>
          if is_processed s eid then (Inr (''duplicate_skipped'', ''n/a''), s)
          else if create_nba p = Some False
            then (Inr (''deactivated_only'', ''n/a''), mark_processed (after_deactivation now s p) eid)
          else (case p_nba_definition_id p of
                  None \<Rightarrow> (Inl KeyError, after_deactivation now s p)
                | Some def_id \<Rightarrow>
                    (case upsert_from_calculation_event hn now (after_deactivation now s p) eid def_id
                            (snd (target_identifiers ref p)) (fst (target_identifiers ref p))
                            (p_contact_id p) (case p_context p of None \<Rightarrow> [] | Some c \<Rightarrow> c) of
                       (None, s2) \<Rightarrow> (Inr (''created'', ''n/a''), mark_processed s2 eid)
                     | (Some nba, s2) \<Rightarrow>
                         (Inr (''created'', rec_id nba),
                          mark_processed
                            (snd (add (snd (deactivate_other_active_new_for_scope now s2
                                              (rec_id nba) (nba_definition_id nba)
                                              (enterprise_number nba) (account_id nba)
                                              (contact_id nba)))
                                   \<lparr>evt_id = ''evt_'' @ he, evt_nba_id = rec_id nba,
                                    evt_status = NBA_STATUS_NEW,
                                    evt_context = [(''source'', source p),
                                                   (''occurred_at'', occurred_at p)],
                                    acted_by = None, action_at = utc_now now\<rparr>)) eid))))"
  by (auto simp: process_def Let_def target_identifiers_def after_deactivation_def split_def
      split: option.splits prod.splits)

lemma upsert_new:
  "event_to_nba_id s eid = None \<Longrightarrow>
   upsert_from_calculation_event h now s eid d e a c ctx =
     (Some \<lparr>rec_id = ''nba_'' @ h, nba_definition_id = d, enterprise_number = e,
            account_id = a, contact_id = c, active = True, status = NBA_STATUS_NEW,
            priority = 0, nba_context = ctx, created_at = now, updated_at = now\<rparr>,
      s\<lparr>nbas := AList.update (''nba_'' @ h)
                  \<lparr>rec_id = ''nba_'' @ h, nba_definition_id = d, enterprise_number = e,
                   account_id = a, contact_id = c, active = True, status = NBA_STATUS_NEW,
                   priority = 0, nba_context = ctx, created_at = now, updated_at = now\<rparr> (nbas s),
        event_to_nba_id := (event_to_nba_id s)(eid \<mapsto> ''nba_'' @ h)\<rparr>)"
  by (simp add: upsert_from_calculation_event_def Let_def)

lemma upsert_seen:
  "event_to_nba_id s eid = Some nid \<Longrightarrow>
   upsert_from_calculation_event h now s eid d e a c ctx = (get_nba s nid, s)"
  by (simp add: upsert_from_calculation_event_def get_nba_def)

lemma upsert_processed:
  "processed (snd (upsert_from_calculation_event h now s eid d e a c ctx)) = processed s"
  by (simp add: upsert_from_calculation_event_def Let_def split: option.splits)

lemma process_processed:
  "processed s \<subseteq> processed (snd (process ref hn he now s p))"
proof -
  have "\<And>r s2 h s eid d e a c ctx. upsert_from_calculation_event h now s eid d e a c ctx = (r, s2)
          \<Longrightarrow> processed s2 = processed s"
    by (metis upsert_processed snd_conv)
  then show ?thesis
    by (auto simp: process_unfold is_processed_def mark_processed_def add_def
        deactivate_other_frame after_deactivation_frame
        split: option.splits prod.splits)
qed

lemma register_action_processed:
  "processed (snd (register_action h now s nid st act_at comment user)) = processed s"
  by (auto simp: register_action_def update_status_def add_def Let_def
      split: option.splits if_splits prod.splits sum.splits)

lemma serve_processed: "processed s \<subseteq> processed (serve ref s r)"
  by (cases r) (simp_all add: process_processed register_action_processed)

lemma serve_all_processed: "processed s \<subseteq> processed (serve_all ref s rs)"
  unfolding serve_all_def
proof (induction rs arbitrary: s)
  case Nil
  show ?case by simp
next
  case (Cons r rs)
  from serve_processed [of s ref r] Cons.IH [of "serve ref s r"]
  show ?case by auto
qed

lemma process_created:
  assumes e: "event_id p = Some eid"
    and n: "\<not> is_processed s eid"
    and c: "create_nba p \<noteq> Some False"
    and d: "p_nba_definition_id p = Some def_id"
    and u: "event_to_nba_id s eid = None"
  shows "process ref hn he now s p =
     (Inr (''created'', ''nba_'' @ hn),
      (after_deactivation now s p)
        \<lparr>nbas := fst (deactivate_scope_loop now (''nba_'' @ hn) def_id
                       (snd (target_identifiers ref p)) (fst (target_identifiers ref p))
                       (p_contact_id p)
                       (AList.update (''nba_'' @ hn)
                          \<lparr>rec_id = ''nba_'' @ hn, nba_definition_id = def_id,
                           enterprise_number = snd (target_identifiers ref p),
                           account_id = fst (target_identifiers ref p),
                           contact_id = p_contact_id p, active = True,
                           status = NBA_STATUS_NEW, priority = 0,
                           nba_context = (case p_context p of None \<Rightarrow> [] | Some c \<Rightarrow> c),
                           created_at = now, updated_at = now\<rparr>
                          (nbas (after_deactivation now s p)))
                       (AList.update (''nba_'' @ hn)
                          \<lparr>rec_id = ''nba_'' @ hn, nba_definition_id = def_id,
                           enterprise_number = snd (target_identifiers ref p),
                           account_id = fst (target_identifiers ref p),
                           contact_id = p_contact_id p, active = True,
                           status = NBA_STATUS_NEW, priority = 0,
                           nba_context = (case p_context p of None \<Rightarrow> [] | Some c \<Rightarrow> c),
                           created_at = now, updated_at = now\<rparr>
                          (nbas (after_deactivation now s p)), 0)),
         event_to_nba_id := (event_to_nba_id s)(eid \<mapsto> ''nba_'' @ hn),
         events := events s @
           [\<lparr>evt_id = ''evt_'' @ he, evt_nba_id = ''nba_'' @ hn, evt_status = NBA_STATUS_NEW,
             evt_context = [(''source'', source p), (''occurred_at'', occurred_at p)],
             acted_by = None, action_at = utc_now now\<rparr>],
         processed := insert eid (processed s)\<rparr>)"
proof -
  have u': "event_to_nba_id (after_deactivation now s p) eid = None"
    using u by (simp add: after_deactivation_frame)
  show ?thesis
    using e n c d
    by (simp add: process_unfold upsert_new [OF u'] deactivate_other_frame add_def
        mark_processed_def after_deactivation_frame)
qed

text \<open>
  Claim C10. The ledger of processed events only grows: an id is in it right after
  \<open>mark_processed\<close>, and an id that is in it stays in it through every calculation
  event and every action served afterwards. So every later \<open>process\<close> of a payload
  with that event id returns \<^verbatim>\<open>duplicate_skipped\<close> and the store unchanged, whatever
  the other fields of the payload are.
\<close>

theorem processed_ledger_monotone:
  "is_processed (mark_processed s eid) eid \<and>
   (is_processed s eid \<longrightarrow>
      is_processed (serve_all ref s rs) eid \<and>
      (event_id p = Some eid \<longrightarrow>
         process ref hn he now (serve_all ref s rs) p
           = (Inr (''duplicate_skipped'', ''n/a''), serve_all ref s rs)))"
  using serve_all_processed [of s ref rs]
  by (auto simp: is_processed_def mark_processed_def process_def)

theorem processed_ledger_monotone_witness:
  "process None ''3333333333'' ''4444444444'' 900
     (serve_all None (sample_store NBA_STATUS_NEW)
        [Action ''1111111111'' 500 ''nba_0a1b2c3d4e'' NBA_STATUS_ACCEPTED None None get_user_context,
         Calculation ''5555555555'' ''6666666666'' 700 (sample_payload ''e-2'')])
     ((sample_payload ''e-1'')\<lparr>create_nba := Some False, deactivate_nba_ids := Some [''nba_0a1b2c3d4e'']\<rparr>)
   = (Inr (''duplicate_skipped'', ''n/a''),
      serve_all None (sample_store NBA_STATUS_NEW)
        [Action ''1111111111'' 500 ''nba_0a1b2c3d4e'' NBA_STATUS_ACCEPTED None None get_user_context,
         Calculation ''5555555555'' ''6666666666'' 700 (sample_payload ''e-2'')])"
proof -
  have a: "is_processed (sample_store NBA_STATUS_NEW) ''e-1''"
    by (simp add: is_processed_def sample_store_def)
  have b: "event_id ((sample_payload ''e-1'')\<lparr>create_nba := Some False,
             deactivate_nba_ids := Some [''nba_0a1b2c3d4e'']\<rparr>) = Some ''e-1''"
    by (simp add: sample_payload_def)
  from processed_ledger_monotone [of "sample_store NBA_STATUS_NEW" "''e-1''"] a b
  show ?thesis by blast
qed

text \<open>
  Claim C5. For an event that is not yet processed, with \<^verbatim>\<open>create_nba\<close> false and a
  list of ids that is not empty, \<open>process\<close> returns \<^verbatim>\<open>deactivated_only\<close>; every
  listed record that exists and is active becomes inactive (with a new
  \<^verbatim>\<open>updated_at\<close>), every other record is as before, ids that are missing or already
  inactive are skipped, no record is created (the keys of the store are the same), the
  log and the event associations are untouched and the event is marked processed. The
  ids are deduplicated keeping first occurrences, so the count that the repository
  returns counts each active listed record once.
\<close>

theorem process_deactivate_only:
  assumes e: "event_id p = Some eid"
    and n: "\<not> is_processed s eid"
    and c: "create_nba p = Some False"
    and i: "deactivate_nba_ids p = Some ids"
    and ne: "ids \<noteq> []"
  shows "\<exists>s'. process ref hn he now s p = (Inr (''deactivated_only'', ''n/a''), s') \<and>
     map fst (nbas s') = map fst (nbas s) \<and>
     (\<forall>k. get_nba s' k =
            (if k \<in> set ids
             then map_option (\<lambda>r. if active r then r\<lparr>active := False, updated_at := now\<rparr> else r)
                    (get_nba s k)
             else get_nba s k)) \<and>
     is_processed s' eid \<and> processed s' = insert eid (processed s) \<and>
     events s' = events s \<and> event_to_nba_id s' = event_to_nba_id s \<and>
     fromkeys ids = dedup_first ids \<and>
     fst (deactivate_nbas_by_ids now s ids) =
       length (filter (\<lambda>k. case get_nba s k of Some r \<Rightarrow> active r | None \<Rightarrow> False)
                 (dedup_first ids))"
proof -
  let ?s' = "mark_processed (after_deactivation now s p) eid"
  have p: "process ref hn he now s p = (Inr (''deactivated_only'', ''n/a''), ?s')"
    using e n c by (simp add: process_unfold)
  have ad: "after_deactivation now s p
             = s\<lparr>nbas := fst (deactivate_ids_loop now (fromkeys ids) (nbas s, 0))\<rparr>"
    using i ne by (simp add: after_deactivation_def deactivate_nbas_by_ids_frame)
  have k: "map fst (nbas ?s') = map fst (nbas s)"
    by (simp add: mark_processed_def after_deactivation_frame)
  have l: "\<forall>k. get_nba ?s' k =
            (if k \<in> set ids
             then map_option (\<lambda>r. if active r then r\<lparr>active := False, updated_at := now\<rparr> else r)
                    (get_nba s k)
             else get_nba s k)"
    by (simp add: mark_processed_def get_nba_def ad deactivate_ids_loop_lookup
        fromkeys_dedup_first set_dedup_first)
  have m: "is_processed ?s' eid \<and> processed ?s' = insert eid (processed s) \<and>
           events ?s' = events s \<and> event_to_nba_id ?s' = event_to_nba_id s"
    by (simp add: mark_processed_def is_processed_def after_deactivation_frame)
  have cnt: "fst (deactivate_nbas_by_ids now s ids) =
       length (filter (\<lambda>k. case get_nba s k of Some r \<Rightarrow> active r | None \<Rightarrow> False)
                 (dedup_first ids))"
    using deactivate_ids_loop_count [OF distinct_dedup_first, of now ids "nbas s" 0]
    by (simp add: deactivate_nbas_by_ids_def split_def Let_def fromkeys_dedup_first get_nba_def)
  from p k l m cnt show ?thesis by (simp add: fromkeys_dedup_first)
qed

theorem process_deactivate_only_witness:
  "fst (process None ''3333333333'' ''4444444444'' 900 (sample_store NBA_STATUS_NEW)
          ((sample_payload ''e-2'')\<lparr>create_nba := Some False,
             deactivate_nba_ids := Some [''nba_0a1b2c3d4e'', ''nba_missing'', ''nba_0a1b2c3d4e'']\<rparr>))
     = Inr (''deactivated_only'', ''n/a'') \<and>
   get_nba (snd (process None ''3333333333'' ''4444444444'' 900 (sample_store NBA_STATUS_NEW)
          ((sample_payload ''e-2'')\<lparr>create_nba := Some False,
             deactivate_nba_ids := Some [''nba_0a1b2c3d4e'', ''nba_missing'', ''nba_0a1b2c3d4e'']\<rparr>)))
       ''nba_0a1b2c3d4e''
     = Some (sample_nba\<lparr>active := False, updated_at := 900\<rparr>) \<and>
   length (nbas (snd (process None ''3333333333'' ''4444444444'' 900 (sample_store NBA_STATUS_NEW)
          ((sample_payload ''e-2'')\<lparr>create_nba := Some False,
             deactivate_nba_ids := Some [''nba_0a1b2c3d4e'', ''nba_missing'', ''nba_0a1b2c3d4e'']\<rparr>)))) = 1 \<and>
   fst (deactivate_nbas_by_ids 900 (sample_store NBA_STATUS_NEW)
          [''nba_0a1b2c3d4e'', ''nba_missing'', ''nba_0a1b2c3d4e'']) = 1"
proof -
  let ?p = "(sample_payload ''e-2'')\<lparr>create_nba := Some False,
             deactivate_nba_ids := Some [''nba_0a1b2c3d4e'', ''nba_missing'', ''nba_0a1b2c3d4e'']\<rparr>"
  have e: "event_id ?p = Some ''e-2''" by (simp add: sample_payload_def)
  have n: "\<not> is_processed (sample_store NBA_STATUS_NEW) ''e-2''"
    by (simp add: is_processed_def sample_store_def)
  have c: "create_nba ?p = Some False" by simp
  have i: "deactivate_nba_ids ?p = Some [''nba_0a1b2c3d4e'', ''nba_missing'', ''nba_0a1b2c3d4e'']"
    by simp
  have ne: "[''nba_0a1b2c3d4e'', ''nba_missing'', ''nba_0a1b2c3d4e''] \<noteq> []" by simp
  have g: "get_nba (sample_store NBA_STATUS_NEW) ''nba_missing'' = None"
    by (simp add: get_nba_def sample_store_def)
  have a: "active (sample_nba\<lparr>status := NBA_STATUS_NEW\<rparr>)"
    and sn: "sample_nba\<lparr>status := NBA_STATUS_NEW\<rparr> = sample_nba"
    by (simp_all add: sample_nba_def)
  have len: "length (map fst (nbas (sample_store NBA_STATUS_NEW))) = 1"
    by (simp add: sample_store_def)
  from process_deactivate_only [OF e n c i ne, of None "''3333333333''" "''4444444444''" 900]
  obtain s' where p: "process None ''3333333333'' ''4444444444'' 900 (sample_store NBA_STATUS_NEW) ?p
        = (Inr (''deactivated_only'', ''n/a''), s')"
    and k: "map fst (nbas s') = map fst (nbas (sample_store NBA_STATUS_NEW))"
    and l: "get_nba s' ''nba_0a1b2c3d4e'' =
        map_option (\<lambda>r. if active r then r\<lparr>active := False, updated_at := 900\<rparr> else r)
          (get_nba (sample_store NBA_STATUS_NEW) ''nba_0a1b2c3d4e'')"
    and cnt: "fst (deactivate_nbas_by_ids 900 (sample_store NBA_STATUS_NEW)
                [''nba_0a1b2c3d4e'', ''nba_missing'', ''nba_0a1b2c3d4e'']) =
       length (filter (\<lambda>k. case get_nba (sample_store NBA_STATUS_NEW) k of
                               Some r \<Rightarrow> active r | None \<Rightarrow> False)
                 (dedup_first [''nba_0a1b2c3d4e'', ''nba_missing'', ''nba_0a1b2c3d4e'']))"
    by auto
  from k len have "length (nbas s') = 1" by (metis length_map)
  moreover from l have "get_nba s' ''nba_0a1b2c3d4e'' = Some (sample_nba\<lparr>active := False, updated_at := 900\<rparr>)"
    by (simp add: sample_get sn) (simp add: sample_nba_def)
  moreover from cnt have "fst (deactivate_nbas_by_ids 900 (sample_store NBA_STATUS_NEW)
                [''nba_0a1b2c3d4e'', ''nba_missing'', ''nba_0a1b2c3d4e'']) = 1"
    by (simp add: sample_get g a)
  ultimately show ?thesis using p by simp
qed

text \<open>
  Claim C1. An event that asks for creation and has not been seen before, processed
  twice: the first call creates the record \<^verbatim>\<open>nba_<hex>\<close> (active, new) and associates
  the event id with it; the keys of the store are the old ones and this one, which is
  appended when it is fresh; the second call returns \<^verbatim>\<open>duplicate_skipped\<close> and the
  store it was given. At the store level, \<open>upsert_from_calculation_event\<close> with an
  event id that already has an association returns the record of that association and
  the store unchanged.
\<close>

theorem process_same_event_twice:
  "(event_id p = Some eid \<and> create_nba p \<noteq> Some False \<and> p_nba_definition_id p = Some def_id \<and>
    \<not> is_processed s eid \<and> event_to_nba_id s eid = None \<and>
    process ref hn he now s p = (r1, s1) \<and> process ref hn' he' now' s1 p = (r2, s2)
    \<longrightarrow> r1 = Inr (''created'', ''nba_'' @ hn) \<and> r2 = Inr (''duplicate_skipped'', ''n/a'') \<and>
        s2 = s1 \<and>
        event_to_nba_id s1 = (event_to_nba_id s)(eid \<mapsto> ''nba_'' @ hn) \<and>
        set (map fst (nbas s1)) = insert (''nba_'' @ hn) (set (map fst (nbas s))) \<and>
        (''nba_'' @ hn \<notin> set (map fst (nbas s))
           \<longrightarrow> map fst (nbas s1) = map fst (nbas s) @ [''nba_'' @ hn]) \<and>
        (\<exists>nba. get_nba s1 (''nba_'' @ hn) = Some nba \<and> active nba \<and> status nba = NBA_STATUS_NEW)) \<and>
   (event_to_nba_id t eid' = Some nid
    \<longrightarrow> upsert_from_calculation_event h now'' t eid' def_id' ent acc con ctx = (get_nba t nid, t))"
proof (intro conjI impI)
  assume "event_to_nba_id t eid' = Some nid"
  then show "upsert_from_calculation_event h now'' t eid' def_id' ent acc con ctx = (get_nba t nid, t)"
    by (rule upsert_seen)
next
  assume a: "event_id p = Some eid \<and> create_nba p \<noteq> Some False \<and> p_nba_definition_id p = Some def_id \<and>
    \<not> is_processed s eid \<and> event_to_nba_id s eid = None \<and>
    process ref hn he now s p = (r1, s1) \<and> process ref hn' he' now' s1 p = (r2, s2)"
  then have e: "event_id p = Some eid" and c: "create_nba p \<noteq> Some False"
    and d: "p_nba_definition_id p = Some def_id" and n: "\<not> is_processed s eid"
    and u: "event_to_nba_id s eid = None"
    and p1: "process ref hn he now s p = (r1, s1)"
    and p2: "process ref hn' he' now' s1 p = (r2, s2)"
    by simp_all
  let ?nid = "''nba_'' @ hn"
  let ?nba = "\<lparr>rec_id = ''nba_'' @ hn, nba_definition_id = def_id,
                           enterprise_number = snd (target_identifiers ref p),
                           account_id = fst (target_identifiers ref p),
                           contact_id = p_contact_id p, active = True,
                           status = NBA_STATUS_NEW, priority = 0,
                           nba_context = (case p_context p of None \<Rightarrow> [] | Some c \<Rightarrow> c),
                           created_at = now, updated_at = now\<rparr>"
  let ?d1 = "nbas (after_deactivation now s p)"
  let ?d2 = "AList.update ?nid ?nba ?d1"
  let ?d3 = "fst (deactivate_scope_loop now ?nid def_id
                       (snd (target_identifiers ref p)) (fst (target_identifiers ref p))
                       (p_contact_id p) ?d2 (?d2, 0))"
  from process_created [OF e n c d u, of ref hn he now] p1
  have r1: "r1 = Inr (''created'', ?nid)"
    and s1: "s1 = (after_deactivation now s p)
        \<lparr>nbas := ?d3,
         event_to_nba_id := (event_to_nba_id s)(eid \<mapsto> ?nid),
         events := events s @
           [\<lparr>evt_id = ''evt_'' @ he, evt_nba_id = ?nid, evt_status = NBA_STATUS_NEW,
             evt_context = [(''source'', source p), (''occurred_at'', occurred_at p)],
             acted_by = None, action_at = utc_now now\<rparr>],
         processed := insert eid (processed s)\<rparr>"
    by simp_all
  have pr: "is_processed s1 eid" by (simp add: s1 is_processed_def)
  from p2 e pr have r2: "r2 = Inr (''duplicate_skipped'', ''n/a'')" and s2: "s2 = s1"
    by (simp_all add: process_def)
  have k3: "map fst ?d3 = map fst ?d2"
    by (simp add: deactivate_scope_loop_keys)
  have k1: "map fst ?d1 = map fst (nbas s)" by (simp add: after_deactivation_frame)
  have k2: "map fst ?d2 = (if ?nid \<in> set (map fst (nbas s)) then map fst (nbas s)
                            else map fst (nbas s) @ [?nid])"
    using k1 by (simp add: update_keys)
  have g: "map_of ?d3 ?nid = Some ?nba"
    by (simp add: deactivate_scope_loop_keep update_conv')
  show "r1 = Inr (''created'', ''nba_'' @ hn)" by (rule r1)
  show "r2 = Inr (''duplicate_skipped'', ''n/a'')" by (rule r2)
  show "s2 = s1" by (rule s2)
  show "event_to_nba_id s1 = (event_to_nba_id s)(eid \<mapsto> ''nba_'' @ hn)" by (simp add: s1)
  show "set (map fst (nbas s1)) = insert (''nba_'' @ hn) (set (map fst (nbas s)))"
    using k3 k2 by (auto simp: s1)
  show "map fst (nbas s1) = map fst (nbas s) @ [''nba_'' @ hn]"
    if "''nba_'' @ hn \<notin> set (map fst (nbas s))"
    using that k3 k2 by (simp add: s1)
  show "\<exists>nba. get_nba s1 (''nba_'' @ hn) = Some nba \<and> active nba \<and> status nba = NBA_STATUS_NEW"
    using g by (simp add: s1 get_nba_def)
qed

theorem process_same_event_twice_witness:
  "fst (process None ''0a1b2c3d4e'' ''00000000aa'' 100 init_store (sample_payload ''e-1''))
     = Inr (''created'', ''nba_0a1b2c3d4e'') \<and>
   process None ''9999999999'' ''8888888888'' 200
       (snd (process None ''0a1b2c3d4e'' ''00000000aa'' 100 init_store (sample_payload ''e-1'')))
       (sample_payload ''e-1'')
     = (Inr (''duplicate_skipped'', ''n/a''),
        snd (process None ''0a1b2c3d4e'' ''00000000aa'' 100 init_store (sample_payload ''e-1''))) \<and>
   map fst (nbas (snd (process None ''0a1b2c3d4e'' ''00000000aa'' 100 init_store
                         (sample_payload ''e-1''))))
     = [''nba_0a1b2c3d4e''] \<and>
   upsert_from_calculation_event ''7777777777'' 300 (sample_store NBA_STATUS_NEW) ''e-1''
       ''cross-sell'' None None None []
     = (Some (sample_nba\<lparr>status := NBA_STATUS_NEW\<rparr>), sample_store NBA_STATUS_NEW)"
proof -
  let ?r = "process None ''0a1b2c3d4e'' ''00000000aa'' 100 init_store (sample_payload ''e-1'')"
  let ?r' = "process None ''9999999999'' ''8888888888'' 200 (snd ?r) (sample_payload ''e-1'')"
  have hyp: "event_id (sample_payload ''e-1'') = Some ''e-1'' \<and>
     create_nba (sample_payload ''e-1'') \<noteq> Some False \<and>
     p_nba_definition_id (sample_payload ''e-1'') = Some ''upsell'' \<and>
     \<not> is_processed init_store ''e-1'' \<and> event_to_nba_id init_store ''e-1'' = None \<and>
     ?r = (fst ?r, snd ?r) \<and> ?r' = (fst ?r', snd ?r')"
    by (simp add: sample_payload_def is_processed_def init_store_def)
  have seen: "event_to_nba_id (sample_store NBA_STATUS_NEW) ''e-1'' = Some ''nba_0a1b2c3d4e''"
    by (simp add: sample_store_def)
  note t = process_same_event_twice
    [where p = "sample_payload ''e-1''" and eid = "''e-1''" and def_id = "''upsell''"
       and s = init_store and ref = None and hn = "''0a1b2c3d4e''" and he = "''00000000aa''"
       and now = 100 and ?r1.0 = "fst ?r" and ?s1.0 = "snd ?r"
       and hn' = "''9999999999''" and he' = "''8888888888''" and now' = 200
       and ?r2.0 = "fst ?r'" and ?s2.0 = "snd ?r'"
       and t = "sample_store NBA_STATUS_NEW" and eid' = "''e-1''" and nid = "''nba_0a1b2c3d4e''"
       and h = "''7777777777''" and now'' = 300 and def_id' = "''cross-sell''"
       and ent = None and acc = None and con = None and ctx = "[]"]
  from t hyp have a: "fst ?r = Inr (''created'', ''nba_0a1b2c3d4e'')"
    and b: "fst ?r' = Inr (''duplicate_skipped'', ''n/a'')" and c: "snd ?r' = snd ?r"
    and d: "map fst (nbas (snd ?r)) = map fst (nbas init_store) @ [''nba_0a1b2c3d4e'']"
    by (simp_all add: init_store_def)
  from t seen have e: "upsert_from_calculation_event ''7777777777'' 300 (sample_store NBA_STATUS_NEW) ''e-1''
       ''cross-sell'' None None None []
     = (get_nba (sample_store NBA_STATUS_NEW) ''nba_0a1b2c3d4e'', sample_store NBA_STATUS_NEW)"
    by blast
  have f: "?r' = (Inr (''duplicate_skipped'', ''n/a''), snd ?r)"
    using b c by (metis prod.collapse)
  from a f d e show ?thesis by (simp add: init_store_def sample_get)
qed

section \<open>Scope exclusivity\<close>

lemma exclusive_mono:
  assumes "\<And>k r. map_of d' k = Some r \<Longrightarrow> active r \<Longrightarrow> map_of d k = Some r"
    and "exclusive d"
  shows "exclusive d'"
  unfolding exclusive_def
proof (intro allI impI)
  fix i j r r' def_id ent acc con
  assume a: "map_of d' i = Some r \<and> map_of d' j = Some r' \<and> in_scope r def_id ent acc con
          \<and> in_scope r' def_id ent acc con"
  then have "active r" "active r'" by (simp_all add: in_scope_def)
  with a assms(1) have "map_of d i = Some r" "map_of d j = Some r'" by blast+
  with a assms(2) show "i = j" unfolding exclusive_def by blast
qed

lemma exclusive_after_deactivation:
  "exclusive (nbas s) \<Longrightarrow> exclusive (nbas (after_deactivation now s p))"
  by (rule exclusive_mono [OF after_deactivation_active])

lemma exclusive_scope_loop:
  "exclusive d \<Longrightarrow> exclusive (fst (deactivate_scope_loop now keep def_id ent acc con d (d, 0)))"
  by (rule exclusive_mono [OF deactivate_scope_loop_active])

lemma exclusive_new_then_scope:
  assumes ex: "exclusive d1"
    and sc: "in_scope nba def_id ent acc con"
  shows "exclusive (fst (deactivate_scope_loop now nid def_id ent acc con
                           (AList.update nid nba d1) (AList.update nid nba d1, 0)))"
    (is "exclusive ?d3")
  unfolding exclusive_def
proof (intro allI impI)
  let ?d2 = "AList.update nid nba d1"
  fix i j r r' D E A C
  assume a: "map_of ?d3 i = Some r \<and> map_of ?d3 j = Some r' \<and> in_scope r D E A C
          \<and> in_scope r' D E A C"
  then have ar: "active r" and ar': "active r'" by (simp_all add: in_scope_def)
  from a ar have i2: "map_of ?d2 i = Some r" by (blast intro: deactivate_scope_loop_active)
  from a ar' have j2: "map_of ?d2 j = Some r'" by (blast intro: deactivate_scope_loop_active)
  have hit: "\<And>k x. k \<noteq> nid \<Longrightarrow> map_of ?d3 k = Some x \<Longrightarrow> map_of ?d2 k = Some x
               \<Longrightarrow> in_scope x def_id ent acc con \<Longrightarrow> False"
  proof -
    fix k x
    assume k: "k \<noteq> nid" and k3: "map_of ?d3 k = Some x" and k2: "map_of ?d2 k = Some x"
      and sx: "in_scope x def_id ent acc con"
    from k2 have "(k, x) \<in> set ?d2" by (rule map_of_SomeD)
    from deactivate_scope_loop_hit [OF this k sx k3] k2 have "\<not> active x" by blast
    with sx show False by (simp add: in_scope_def)
  qed
  show "i = j"
  proof (cases "i = nid")
    case True
    with i2 have r: "r = nba" by (simp add: update_conv')
    with a sc have same: "D = def_id \<and> E = ent \<and> A = acc \<and> C = con" by (simp add: in_scope_def)
    show ?thesis
    proof (rule ccontr)
      assume "i \<noteq> j"
      with True have "j \<noteq> nid" by simp
      from hit [OF this] a j2 same show False by blast
    qed
  next
    case False
    show ?thesis
    proof (cases "j = nid")
      case True
      with j2 have "r' = nba" by (simp add: update_conv')
      with a sc have same: "D = def_id \<and> E = ent \<and> A = acc \<and> C = con" by (simp add: in_scope_def)
      from hit [OF False] a i2 same show ?thesis by blast
    next
      case jf: False
      from i2 False have "map_of d1 i = Some r" by (simp add: update_conv')
      moreover from j2 jf have "map_of d1 j = Some r'" by (simp add: update_conv')
      ultimately show ?thesis using ex a unfolding exclusive_def by blast
    qed
  qed
qed

lemma process_exclusive:
  assumes ex: "exclusive (nbas s)"
  shows "exclusive (nbas (snd (process ref hn he now s p)))"
proof (cases "event_id p")
  case None
  with ex show ?thesis by (simp add: process_unfold)
next
  case (Some eid)
  note e = Some
  let ?s1 = "after_deactivation now s p"
  have ex1: "exclusive (nbas ?s1)" using ex by (rule exclusive_after_deactivation)
  show ?thesis
  proof (cases "is_processed s eid")
    case True
    with e ex show ?thesis by (simp add: process_unfold)
  next
    case np: False
    show ?thesis
    proof (cases "create_nba p = Some False")
      case True
      with e np ex1 show ?thesis by (simp add: process_unfold mark_processed_def)
    next
      case cr: False
      show ?thesis
      proof (cases "p_nba_definition_id p")
        case None
        with e np cr ex1 show ?thesis by (simp add: process_unfold)
      next
        case (Some def_id)
        note d = Some
        show ?thesis
        proof (cases "event_to_nba_id ?s1 eid")
          case None
          have "in_scope \<lparr>rec_id = ''nba_'' @ hn, nba_definition_id = def_id,
                           enterprise_number = snd (target_identifiers ref p),
                           account_id = fst (target_identifiers ref p),
                           contact_id = p_contact_id p, active = True,
                           status = NBA_STATUS_NEW, priority = 0,
                           nba_context = (case p_context p of None \<Rightarrow> [] | Some c \<Rightarrow> c),
                           created_at = now, updated_at = now\<rparr>
                  def_id (snd (target_identifiers ref p)) (fst (target_identifiers ref p))
                  (p_contact_id p)"
            by (simp add: in_scope_def)
          from exclusive_new_then_scope [OF ex1 this, of now "''nba_'' @ hn"]
          show ?thesis
            using e np cr d
            by (simp add: process_unfold upsert_new [OF None] deactivate_other_frame add_def
                mark_processed_def)
        next
          case (Some nid)
          note seen = Some
          show ?thesis
          proof (cases "get_nba ?s1 nid")
            case None
            with e np cr d ex1 show ?thesis
              by (simp add: process_unfold upsert_seen [OF seen] mark_processed_def)
          next
            case (Some nba)
            from exclusive_scope_loop [OF ex1, of now "rec_id nba" "nba_definition_id nba"
                  "enterprise_number nba" "account_id nba" "contact_id nba"]
            show ?thesis
              using e np cr d Some
              by (simp add: process_unfold upsert_seen [OF seen] deactivate_other_frame add_def
                  mark_processed_def)
          qed
        qed
      qed
    qed
  qed
qed

lemma process_nbas_cases:
  "nbas (snd (process ref hn he now s p)) = nbas s \<or>
   nbas (snd (process ref hn he now s p)) = nbas (after_deactivation now s p) \<or>
   (\<exists>nba def_id ent acc con.
      nbas (snd (process ref hn he now s p)) =
        fst (deactivate_scope_loop now (''nba_'' @ hn) def_id ent acc con
               (AList.update (''nba_'' @ hn) nba (nbas (after_deactivation now s p)))
               (AList.update (''nba_'' @ hn) nba (nbas (after_deactivation now s p)), 0))) \<or>
   (\<exists>keep def_id ent acc con.
      nbas (snd (process ref hn he now s p)) =
        fst (deactivate_scope_loop now keep def_id ent acc con
               (nbas (after_deactivation now s p)) (nbas (after_deactivation now s p), 0)))"
    (is "?A \<or> ?B \<or> ?C \<or> ?D")
proof (cases "event_id p")
  case None
  then have ?A by (simp add: process_unfold)
  then show ?thesis by blast
next
  case (Some eid)
  note e = Some
  let ?s1 = "after_deactivation now s p"
  show ?thesis
  proof (cases "is_processed s eid")
    case True
    with e have ?A by (simp add: process_unfold)
    then show ?thesis by blast
  next
    case np: False
    show ?thesis
    proof (cases "create_nba p = Some False")
      case True
      with e np have ?B by (simp add: process_unfold mark_processed_def)
      then show ?thesis by blast
    next
      case cr: False
      show ?thesis
      proof (cases "p_nba_definition_id p")
        case None
        with e np cr have ?B by (simp add: process_unfold)
        then show ?thesis by blast
      next
        case (Some def_id)
        note d = Some
        show ?thesis
        proof (cases "event_to_nba_id ?s1 eid")
          case None
          from e np cr d have ?C
            by (simp add: process_unfold upsert_new [OF None] deactivate_other_frame add_def
                mark_processed_def) blast
          then show ?thesis by blast
        next
          case (Some nid)
          note seen = Some
          show ?thesis
          proof (cases "get_nba ?s1 nid")
            case None
            with e np cr d have ?B
              by (simp add: process_unfold upsert_seen [OF seen] mark_processed_def)
            then show ?thesis by blast
          next
            case (Some nba)
            with e np cr d have ?D
              by (simp add: process_unfold upsert_seen [OF seen] deactivate_other_frame add_def
                  mark_processed_def) blast
            then show ?thesis by blast
          qed
        qed
      qed
    qed
  qed
qed

lemma process_distinct:
  assumes "distinct (map fst (nbas s))"
  shows "distinct (map fst (nbas (snd (process ref hn he now s p))))"
proof -
  have d1: "distinct (map fst (nbas (after_deactivation now s p)))"
    using assms by (simp add: after_deactivation_frame)
  have d2: "\<And>nid nba. distinct (map fst (AList.update nid nba (nbas (after_deactivation now s p))))"
    using d1 by (rule distinct_update)
  from process_nbas_cases [of ref hn he now s p] assms d1 d2 show ?thesis
    by (auto simp: deactivate_scope_loop_keys)
qed

lemma process_associations:
  assumes "dom (event_to_nba_id s) \<subseteq> processed s"
  shows "dom (event_to_nba_id (snd (process ref hn he now s p)))
           \<subseteq> processed (snd (process ref hn he now s p))"
  using assms
  by (auto simp: process_unfold upsert_from_calculation_event_def Let_def deactivate_other_frame
      add_def mark_processed_def after_deactivation_frame split: option.splits if_splits)

lemma process_inv: "reachable_inv s \<Longrightarrow> reachable_inv (snd (process ref hn he now s p))"
  by (simp add: reachable_inv_def process_exclusive process_distinct process_associations)

lemma queue_worker_inv: "reachable_inv s \<Longrightarrow> reachable_inv (queue_worker ref s evs)"
proof (induction evs arbitrary: s)
  case Nil
  then show ?case by simp
next
  case (Cons ev evs)
  obtain hn he now p where ev: "ev = (hn, he, now, p)" by (cases ev)
  from process_inv [OF Cons.prems, of ref hn he now p]
  have i: "reachable_inv (snd (process ref hn he now s p))" .
  show ?case
  proof (cases "process ref hn he now s p")
    case (Pair r s')
    with i have i': "reachable_inv s'" by simp
    show ?thesis
    proof (cases r)
      case (Inl e)
      with Pair i' show ?thesis by (simp add: ev)
    next
      case (Inr x)
      with Pair Cons.IH [OF i'] show ?thesis by (simp add: ev)
    qed
  qed
qed

lemma init_inv: "reachable_inv init_store"
  by (simp add: reachable_inv_def init_store_def exclusive_def)

lemma exclusive_count:
  "distinct (map fst d) \<Longrightarrow> exclusive d \<Longrightarrow>
     length (filter (\<lambda>r. in_scope r def_id ent acc con) (map snd d)) \<le> 1"
proof (induction d)
  case Nil
  show ?case by simp
next
  case (Cons kv d)
  obtain k v where kv: "kv = (k, v)" by (cases kv)
  from Cons.prems kv have dist: "distinct (map fst d)" and k: "k \<notin> set (map fst d)" by simp_all
  have look: "\<And>i r. map_of d i = Some r \<Longrightarrow> map_of (kv # d) i = Some r"
    using k by (auto simp: kv dest: map_of_SomeD intro: rev_image_eqI)
  have ex: "exclusive d"
    unfolding exclusive_def
  proof (intro allI impI)
    fix i j r r' D E A C
    assume "map_of d i = Some r \<and> map_of d j = Some r' \<and> in_scope r D E A C \<and> in_scope r' D E A C"
    with look Cons.prems(2) show "i = j" unfolding exclusive_def by blast
  qed
  show ?case
  proof (cases "in_scope v def_id ent acc con")
    case False
    with Cons.IH [OF dist ex] show ?thesis by (simp add: kv)
  next
    case True
    have "filter (\<lambda>r. in_scope r def_id ent acc con) (map snd d) = []"
    proof (rule ccontr)
      assume "filter (\<lambda>r. in_scope r def_id ent acc con) (map snd d) \<noteq> []"
      then obtain r where "r \<in> set (map snd d)" and s: "in_scope r def_id ent acc con"
        by (metis filter_False)
      then obtain i where "(i, r) \<in> set d" by auto
      with dist have m: "map_of d i = Some r" by simp
      then have i: "i \<noteq> k" using k by (auto dest: map_of_SomeD intro: rev_image_eqI)
      from m have "map_of (kv # d) i = Some r" by (rule look)
      moreover have "map_of (kv # d) k = Some v" by (simp add: kv)
      ultimately have "i = k" using Cons.prems(2) True s unfolding exclusive_def by blast
      with i show False by simp
    qed
    with True show ?thesis by (simp add: kv)
  qed
qed

lemma process_created_facts:
  assumes e: "event_id p = Some eid"
    and n: "\<not> is_processed s eid"
    and c: "create_nba p \<noteq> Some False"
    and d: "p_nba_definition_id p = Some def_id"
    and u: "event_to_nba_id s eid = None"
  shows "\<exists>s' nba. process ref hn he now s p = (Inr (''created'', ''nba_'' @ hn), s') \<and>
     processed s' = insert eid (processed s) \<and>
     event_to_nba_id s' = (event_to_nba_id s)(eid \<mapsto> ''nba_'' @ hn) \<and>
     get_nba s' (''nba_'' @ hn) = Some nba \<and>
     in_scope nba def_id (snd (target_identifiers ref p)) (fst (target_identifiers ref p))
       (p_contact_id p) \<and>
     set (map fst (nbas s')) = insert (''nba_'' @ hn) (set (map fst (nbas s))) \<and>
     (\<forall>k r. k \<noteq> ''nba_'' @ hn \<and> get_nba s' k = Some r \<and> active r \<longrightarrow>
        get_nba s k = Some r \<and>
        \<not> in_scope r def_id (snd (target_identifiers ref p)) (fst (target_identifiers ref p))
             (p_contact_id p))"
proof -
  let ?nid = "''nba_'' @ hn"
  let ?ent = "snd (target_identifiers ref p)"
  let ?acc = "fst (target_identifiers ref p)"
  let ?con = "p_contact_id p"
  let ?nba = "\<lparr>rec_id = ''nba_'' @ hn, nba_definition_id = def_id,
                enterprise_number = ?ent, account_id = ?acc, contact_id = ?con, active = True,
                status = NBA_STATUS_NEW, priority = 0,
                nba_context = (case p_context p of None \<Rightarrow> [] | Some c \<Rightarrow> c),
                created_at = now, updated_at = now\<rparr>"
  let ?d1 = "nbas (after_deactivation now s p)"
  let ?d2 = "AList.update ?nid ?nba ?d1"
  let ?d3 = "fst (deactivate_scope_loop now ?nid def_id ?ent ?acc ?con ?d2 (?d2, 0))"
  let ?s' = "snd (process ref hn he now s p)"
  note pc = process_created [OF e n c d u, of ref hn he now]
  have p: "process ref hn he now s p = (Inr (''created'', ?nid), ?s')"
    by (simp add: pc)
  have nb: "nbas ?s' = ?d3" by (simp add: pc)
  have pr: "processed ?s' = insert eid (processed s)" by (simp add: pc)
  have ev: "event_to_nba_id ?s' = (event_to_nba_id s)(eid \<mapsto> ?nid)" by (simp add: pc)
  have g: "get_nba ?s' ?nid = Some ?nba"
    by (simp add: get_nba_def nb deactivate_scope_loop_keep update_conv')
  have sc: "in_scope ?nba def_id ?ent ?acc ?con" by (simp add: in_scope_def)
  have k: "set (map fst (nbas ?s')) = insert ?nid (set (map fst (nbas s)))"
    by (auto simp: nb deactivate_scope_loop_keys update_keys after_deactivation_frame)
  have o: "\<forall>k r. k \<noteq> ?nid \<and> get_nba ?s' k = Some r \<and> active r \<longrightarrow>
        get_nba s k = Some r \<and> \<not> in_scope r def_id ?ent ?acc ?con"
  proof (intro allI impI)
    fix k r
    assume a: "k \<noteq> ?nid \<and> get_nba ?s' k = Some r \<and> active r"
    then have k3: "map_of ?d3 k = Some r" and kn: "k \<noteq> ?nid" and ar: "active r"
      by (simp_all add: get_nba_def nb)
    from deactivate_scope_loop_active [OF k3 ar] have k2: "map_of ?d2 k = Some r" .
    with kn have k1: "map_of ?d1 k = Some r" by (simp add: update_conv')
    from after_deactivation_active [OF k1 ar] have k0: "get_nba s k = Some r"
      by (simp add: get_nba_def)
    have "\<not> in_scope r def_id ?ent ?acc ?con"
    proof
      assume sr: "in_scope r def_id ?ent ?acc ?con"
      from k2 have "(k, r) \<in> set ?d2" by (rule map_of_SomeD)
      from deactivate_scope_loop_hit [OF this kn sr k3] k2 ar show False by blast
    qed
    with k0 show "get_nba s k = Some r \<and> \<not> in_scope r def_id ?ent ?acc ?con" by simp
  qed
  from p pr ev g sc k o show ?thesis by blast
qed

lemma inv_count:
  "reachable_inv s \<Longrightarrow> length (active_new_in_scope s def_id ent acc con) \<le> 1"
  unfolding reachable_inv_def active_new_in_scope_def
  by (blast intro: exclusive_count)

text \<open>
  Claim C2. After the queue worker has processed any list of calculation events from
  the empty stores, every scope tuple (definition id, enterprise number, account id,
  contact id, compared with equality, \<open>None\<close> equal only to \<open>None\<close>) has at most one
  record that is active and new. And when two further events with different event ids,
  not yet processed, both asking for creation and with the same scope tuple, are
  processed one after the other (their generated ids being different), exactly one
  record of that scope is active and new afterwards, the one of the second event, and
  the record of the first event is there and inactive.
\<close>

theorem scope_exclusivity:
  "length (active_new_in_scope (queue_worker ref init_store evs) def_id ent acc con) \<le> 1 \<and>
   (s0 = queue_worker ref init_store evs \<and>
    event_id p1 = Some e1 \<and> event_id p2 = Some e2 \<and> e1 \<noteq> e2 \<and>
    \<not> is_processed s0 e1 \<and> \<not> is_processed s0 e2 \<and>
    create_nba p1 \<noteq> Some False \<and> create_nba p2 \<noteq> Some False \<and>
    p_nba_definition_id p1 = Some d \<and> p_nba_definition_id p2 = Some d \<and>
    p_enterprise_number p1 = p_enterprise_number p2 \<and> p_account_id p1 = p_account_id p2 \<and>
    p_contact_id p1 = p_contact_id p2 \<and> hn1 \<noteq> hn2 \<and>
    s2 = queue_worker ref s0 [(hn1, he1, t1, p1), (hn2, he2, t2, p2)]
    \<longrightarrow> (\<exists>r. active_new_in_scope s2 d (snd (target_identifiers ref p2))
                 (fst (target_identifiers ref p2)) (p_contact_id p2) = [r] \<and>
              get_nba s2 (''nba_'' @ hn2) = Some r) \<and>
        (\<exists>r1. get_nba s2 (''nba_'' @ hn1) = Some r1 \<and> \<not> active r1))"
proof (intro conjI impI)
  have "reachable_inv (queue_worker ref init_store evs)"
    by (rule queue_worker_inv [OF init_inv])
  then show "length (active_new_in_scope (queue_worker ref init_store evs) def_id ent acc con) \<le> 1"
    by (rule inv_count)
next
  assume a: "s0 = queue_worker ref init_store evs \<and>
    event_id p1 = Some e1 \<and> event_id p2 = Some e2 \<and> e1 \<noteq> e2 \<and>
    \<not> is_processed s0 e1 \<and> \<not> is_processed s0 e2 \<and>
    create_nba p1 \<noteq> Some False \<and> create_nba p2 \<noteq> Some False \<and>
    p_nba_definition_id p1 = Some d \<and> p_nba_definition_id p2 = Some d \<and>
    p_enterprise_number p1 = p_enterprise_number p2 \<and> p_account_id p1 = p_account_id p2 \<and>
    p_contact_id p1 = p_contact_id p2 \<and> hn1 \<noteq> hn2 \<and>
    s2 = queue_worker ref s0 [(hn1, he1, t1, p1), (hn2, he2, t2, p2)]"
  let ?n1 = "''nba_'' @ hn1" and ?n2 = "''nba_'' @ hn2"
  let ?ent = "snd (target_identifiers ref p2)" and ?acc = "fst (target_identifiers ref p2)"
  let ?con = "p_contact_id p2"
  from a have s0: "s0 = queue_worker ref init_store evs"
    and e1: "event_id p1 = Some e1" and e2: "event_id p2 = Some e2" and ne: "e1 \<noteq> e2"
    and n1: "\<not> is_processed s0 e1" and n2o: "\<not> is_processed s0 e2"
    and c1: "create_nba p1 \<noteq> Some False" and c2: "create_nba p2 \<noteq> Some False"
    and d1: "p_nba_definition_id p1 = Some d" and d2: "p_nba_definition_id p2 = Some d"
    and qe: "p_enterprise_number p1 = p_enterprise_number p2"
    and qa: "p_account_id p1 = p_account_id p2"
    and qc: "p_contact_id p1 = p_contact_id p2"
    and hh: "hn1 \<noteq> hn2"
    and s2d: "s2 = queue_worker ref s0 [(hn1, he1, t1, p1), (hn2, he2, t2, p2)]"
    by blast+
  have ti: "target_identifiers ref p1 = target_identifiers ref p2"
    by (simp only: target_identifiers_def qe qa)
  from hh have nn: "?n1 \<noteq> ?n2" by simp
  have inv0: "reachable_inv s0" unfolding s0 by (rule queue_worker_inv [OF init_inv])
  from n1 n2o inv0 have u1: "event_to_nba_id s0 e1 = None" and u2: "event_to_nba_id s0 e2 = None"
    by (auto simp: reachable_inv_def is_processed_def)
  from process_created_facts [OF e1 n1 c1 d1 u1, of ref hn1 he1 t1]
  obtain sA nba1 where pA: "process ref hn1 he1 t1 s0 p1 = (Inr (''created'', ?n1), sA)"
    and prA: "processed sA = insert e1 (processed s0)"
    and evA: "event_to_nba_id sA = (event_to_nba_id s0)(e1 \<mapsto> ?n1)"
    and gA: "get_nba sA ?n1 = Some nba1"
    and scA: "in_scope nba1 d ?ent ?acc ?con"
    and kA: "set (map fst (nbas sA)) = insert ?n1 (set (map fst (nbas s0)))"
    using ti qc by auto
  from ne n2o prA have n2: "\<not> is_processed sA e2" by (auto simp: is_processed_def)
  from ne evA u2 have u2': "event_to_nba_id sA e2 = None" by auto
  from process_created_facts [OF e2 n2 c2 d2 u2', of ref hn2 he2 t2]
  obtain sB nba2 where pB: "process ref hn2 he2 t2 sA p2 = (Inr (''created'', ?n2), sB)"
    and gB: "get_nba sB ?n2 = Some nba2"
    and scB: "in_scope nba2 d ?ent ?acc ?con"
    and kB: "set (map fst (nbas sB)) = insert ?n2 (set (map fst (nbas sA)))"
    and oB: "\<forall>k r. k \<noteq> ?n2 \<and> get_nba sB k = Some r \<and> active r \<longrightarrow>
               get_nba sA k = Some r \<and> \<not> in_scope r d ?ent ?acc ?con"
    by auto
  from s2d pA pB have s2: "s2 = sB" by simp
  have invA: "reachable_inv sA" using process_inv [OF inv0, of ref hn1 he1 t1 p1] pA by simp
  have invB: "reachable_inv sB" using process_inv [OF invA, of ref hn2 he2 t2 p2] pB by simp
  have le: "length (active_new_in_scope sB d ?ent ?acc ?con) \<le> 1"
    using invB by (rule inv_count)
  from gB have "(?n2, nba2) \<in> set (nbas sB)" by (simp add: get_nba_def map_of_SomeD)
  then have "nba2 \<in> set (map snd (nbas sB))" by force
  with scB have mem: "nba2 \<in> set (active_new_in_scope sB d ?ent ?acc ?con)"
    by (simp add: active_new_in_scope_def)
  have one: "active_new_in_scope sB d ?ent ?acc ?con = [nba2]"
  proof (cases "active_new_in_scope sB d ?ent ?acc ?con")
    case Nil
    with mem show ?thesis by simp
  next
    case (Cons x xs)
    with le have "xs = []" by simp
    with Cons mem show ?thesis by simp
  qed
  from kA kB have "?n1 \<in> set (map fst (nbas sB))" by simp
  then obtain r1 where g1: "get_nba sB ?n1 = Some r1"
    by (metis get_nba_def map_of_eq_None_iff not_None_eq set_map)
  have "\<not> active r1"
  proof
    assume "active r1"
    with oB nn g1 have "get_nba sA ?n1 = Some r1 \<and> \<not> in_scope r1 d ?ent ?acc ?con" by blast
    with gA scA show False by simp
  qed
  with g1 have old: "\<exists>r1. get_nba s2 ?n1 = Some r1 \<and> \<not> active r1" by (simp add: s2)
  from one gB have new: "\<exists>r. active_new_in_scope s2 d ?ent ?acc ?con = [r] \<and> get_nba s2 ?n2 = Some r"
    by (simp add: s2)
  from new show "\<exists>r. active_new_in_scope s2 d (snd (target_identifiers ref p2))
                 (fst (target_identifiers ref p2)) (p_contact_id p2) = [r] \<and>
              get_nba s2 (''nba_'' @ hn2) = Some r" .
  from old show "\<exists>r1. get_nba s2 (''nba_'' @ hn1) = Some r1 \<and> \<not> active r1" .
qed

theorem scope_exclusivity_witness:
  "length (active_new_in_scope
             (queue_worker None init_store
                [(''0a1b2c3d4e'', ''00000000aa'', 100, sample_payload ''e-1''),
                 (''1b2c3d4e5f'', ''00000000bb'', 200, sample_payload ''e-2'')])
             ''upsell'' (Some ''0123456789'') (Some ''acc-1'') None) = 1 \<and>
   map_option active
     (get_nba (queue_worker None init_store
                [(''0a1b2c3d4e'', ''00000000aa'', 100, sample_payload ''e-1''),
                 (''1b2c3d4e5f'', ''00000000bb'', 200, sample_payload ''e-2'')])
        ''nba_0a1b2c3d4e'') = Some False \<and>
   map_option active
     (get_nba (queue_worker None init_store
                [(''0a1b2c3d4e'', ''00000000aa'', 100, sample_payload ''e-1''),
                 (''1b2c3d4e5f'', ''00000000bb'', 200, sample_payload ''e-2'')])
        ''nba_1b2c3d4e5f'') = Some True"
proof -
  let ?s2 = "queue_worker None init_store
                [(''0a1b2c3d4e'', ''00000000aa'', 100, sample_payload ''e-1''),
                 (''1b2c3d4e5f'', ''00000000bb'', 200, sample_payload ''e-2'')]"
  have hyp: "init_store = queue_worker None init_store [] \<and>
    event_id (sample_payload ''e-1'') = Some ''e-1'' \<and>
    event_id (sample_payload ''e-2'') = Some ''e-2'' \<and> ''e-1'' \<noteq> ''e-2'' \<and>
    \<not> is_processed init_store ''e-1'' \<and> \<not> is_processed init_store ''e-2'' \<and>
    create_nba (sample_payload ''e-1'') \<noteq> Some False \<and>
    create_nba (sample_payload ''e-2'') \<noteq> Some False \<and>
    p_nba_definition_id (sample_payload ''e-1'') = Some ''upsell'' \<and>
    p_nba_definition_id (sample_payload ''e-2'') = Some ''upsell'' \<and>
    p_enterprise_number (sample_payload ''e-1'') = p_enterprise_number (sample_payload ''e-2'') \<and>
    p_account_id (sample_payload ''e-1'') = p_account_id (sample_payload ''e-2'') \<and>
    p_contact_id (sample_payload ''e-1'') = p_contact_id (sample_payload ''e-2'') \<and>
    ''0a1b2c3d4e'' \<noteq> ''1b2c3d4e5f'' \<and>
    ?s2 = queue_worker None init_store
                [(''0a1b2c3d4e'', ''00000000aa'', 100, sample_payload ''e-1''),
                 (''1b2c3d4e5f'', ''00000000bb'', 200, sample_payload ''e-2'')]"
    by (simp add: sample_payload_def is_processed_def init_store_def)
  have ti: "target_identifiers None (sample_payload ''e-2'') = (Some ''acc-1'', Some ''0123456789'')"
    and con: "p_contact_id (sample_payload ''e-2'') = None"
    by (simp_all add: target_identifiers_def sample_payload_def)
  from scope_exclusivity
    [where ?s0.0 = init_store and ref = None and evs = "[]"
       and ?p1.0 = "sample_payload ''e-1''" and ?p2.0 = "sample_payload ''e-2''"
       and ?e1.0 = "''e-1''" and ?e2.0 = "''e-2''" and d = "''upsell''"
       and ?hn1.0 = "''0a1b2c3d4e''" and ?hn2.0 = "''1b2c3d4e5f''"
       and ?he1.0 = "''00000000aa''" and ?he2.0 = "''00000000bb''"
       and ?t1.0 = 100 and ?t2.0 = 200 and ?s2.0 = ?s2] hyp
  obtain r r1 where one: "active_new_in_scope ?s2 ''upsell''
        (snd (target_identifiers None (sample_payload ''e-2'')))
        (fst (target_identifiers None (sample_payload ''e-2'')))
        (p_contact_id (sample_payload ''e-2'')) = [r]"
    and g2: "get_nba ?s2 (''nba_'' @ ''1b2c3d4e5f'') = Some r"
    and g1: "get_nba ?s2 (''nba_'' @ ''0a1b2c3d4e'') = Some r1" and na: "\<not> active r1"
    by blast
  from one have one': "active_new_in_scope ?s2 ''upsell'' (Some ''0123456789'') (Some ''acc-1'') None = [r]"
    by (simp only: ti con fst_conv snd_conv)
  then have "r \<in> set (active_new_in_scope ?s2 ''upsell'' (Some ''0123456789'') (Some ''acc-1'') None)"
    by simp
  then have ar: "active r" by (simp add: active_new_in_scope_def in_scope_def)
  from one' have l: "length (active_new_in_scope ?s2 ''upsell'' (Some ''0123456789'') (Some ''acc-1'') None) = 1"
    by simp
  from g1 na have a1: "map_option active (get_nba ?s2 ''nba_0a1b2c3d4e'') = Some False" by simp
  from g2 ar have a2: "map_option active (get_nba ?s2 ''nba_1b2c3d4e5f'') = Some True" by simp
  from l a1 a2 show ?thesis by blast
qed

section \<open>Listing\<close>

lemma py_slice_page:
  "0 \<le> offset \<Longrightarrow> 0 \<le> limit \<Longrightarrow>
     py_slice xs offset (offset + limit) = take (nat limit) (drop (nat offset) xs)"
proof -
  assume o: "0 \<le> offset" and l: "0 \<le> limit"
  show ?thesis
  proof (cases "offset \<le> int (length xs)")
    case False
    then show ?thesis using o l by (simp add: py_slice_def Let_def min_def)
  next
    case True
    show ?thesis
    proof (cases "offset + limit \<le> int (length xs)")
      case True
      then show ?thesis using o l \<open>offset \<le> int (length xs)\<close>
        by (simp add: py_slice_def Let_def min_def)
    next
      case False
      with True o l have "nat limit \<ge> length (drop (nat offset) xs)" by simp
      then have "take (nat limit) (drop (nat offset) xs) = drop (nat offset) xs" by simp
      moreover have "take (nat (int (length xs) - offset)) (drop (nat offset) xs)
              = drop (nat offset) xs"
        using True o by (simp add: nat_diff_distrib)
      ultimately show ?thesis using False True o l
        by (simp add: py_slice_def Let_def min_def)
    qed
  qed
qed

lemma sort_reverse_mset: "mset (sort_reverse k xs) = mset xs"
  by (simp add: sort_reverse_def)

lemma sort_reverse_sorted: "sorted_wrt (\<lambda>a b. k a \<ge> k b) (sort_reverse k xs)"
proof -
  have "sorted (map k (sort_key k (rev xs)))" by (rule sorted_sort_key)
  then have "sorted_wrt (\<lambda>a b. k a \<le> k b) (sort_key k (rev xs))"
    by (simp add: sorted_map)
  then have "sorted_wrt (\<lambda>a b. k b \<le> k a) (rev (sort_key k (rev xs)))"
    by (simp add: sorted_wrt_rev)
  then show ?thesis by (simp add: sort_reverse_def)
qed

text \<open>
  Claim C6. For a limit and an offset that are not negative (the route admits no
  others), \<open>list_nbas\<close> returns the records that are active and equal every filter
  that is given, ordered by \<^verbatim>\<open>created_at\<close> from the newest to the oldest, cut to the
  positions from offset up to offset + limit, and with them the number of all matching
  records, not that of the page. The ordered list has exactly the matching records
  (as a multiset) and is sorted downwards.
\<close>

theorem list_nbas_page:
  "0 \<le> offset \<Longrightarrow> 0 \<le> limit \<Longrightarrow>
     (let matching = filter (\<lambda>nba. active nba
                                \<and> (acc = None \<or> account_id nba = acc)
                                \<and> (ent = None \<or> enterprise_number nba = ent)
                                \<and> (st = None \<or> Some (status nba) = st))
                       (map snd (nbas s));
          ordered = sort_reverse created_at matching
      in list_nbas s acc ent st limit offset
           = (take (nat limit) (drop (nat offset) ordered), length matching) \<and>
         mset ordered = mset matching \<and>
         sorted_wrt (\<lambda>a b. created_at a \<ge> created_at b) ordered)"
  by (simp add: list_nbas_def Let_def match_identifiers_def py_slice_page
      sort_reverse_mset sort_reverse_sorted)
     (simp add: sort_reverse_def)

text \<open>
  With ten matching records, limit 3 and offset 3 give the fourth to the sixth newest
  and the total 10.
\<close>

theorem list_nbas_page_witness:
  "list_nbas ten_store (Some ''acc-1'') (Some ''0123456789'') (Some NBA_STATUS_NEW) 3 3
     = (map snd [numbered ''nba_07'' 7, numbered ''nba_06'' 6, numbered ''nba_05'' 5], 10)"
proof -
  have o: "(0::int) \<le> 3" by simp
  from list_nbas_page [OF o o, of "Some ''acc-1''" "Some ''0123456789''" "Some NBA_STATUS_NEW" ten_store]
  show ?thesis
    by (simp add: Let_def ten_store_def numbered_def sample_nba_def sort_reverse_def
        status_defs init_store_def)
qed

end
